theory Spec2Isabelle
  imports Main "HOL-Library.Monad_Syntax"
begin

section \<open>The LFU cache of \<open>LFUCache.cpp\<close>\<close>

text \<open>
  The cache is built from heap-allocated \<open>Node\<close> and \<open>List\<close> objects that are linked by raw
  pointers. The embedding keeps that structure: a pointer is an address (a natural number),
  a nullable pointer is an \<open>addr option\<close> with \<open>None\<close> for \<open>NULL\<close>, and the free store is a
  pair of partial maps from addresses to objects. Every operation runs in the option
  monad: \<open>None\<close> stands for undefined behaviour of the C++ program (dereferencing a null or
  unallocated pointer). The functions of this section compute with the \<open>int\<close> fields
  \<open>count\<close>, \<open>size\<close>, \<open>curSize\<close> and \<open>minf\<close> as with mathematical integers. The section on the
  program with 32-bit counters gives the same functions with 32-bit wrap-around
  arithmetic (\<open>updateFreqList32\<close>, \<open>get32\<close>, \<open>put32\<close>, \<open>run32\<close>) and proves that the two
  agree in the first 2147483647 calls on a new cache, before any counter overflows.
\<close>

type_synonym addr = nat

subsection \<open>Data: \<open>struct Node\<close>, \<open>struct List\<close>, \<open>class LFUCache\<close>\<close>

record Node =
  key :: int
  val :: int
  count :: int
  "next" :: "addr option"
  prev :: "addr option"

record List =
  head :: addr
  tail :: addr
  size :: int

text \<open>
  The five data members of \<open>class LFUCache\<close>, followed by the free store its pointers refer
  to: the allocated \<open>Node\<close> objects, the allocated \<open>List\<close> objects and the next unused
  address (\<open>new\<close> hands out increasing addresses; nothing is ever deleted by the source).
  \<open>nodeMap\<close> and \<open>listMap\<close> only ever store non-null pointers, so their values are plain
  addresses; \<open>listMap[f]\<close> on a missing key would store a null pointer that the source
  dereferences in the same statement sequence, which the operations below report as \<open>None\<close>.
\<close>

record LFUCache =
  minf :: int
  curSize :: int
  maxSize :: int
  nodeMap :: "int \<rightharpoonup> addr"
  listMap :: "int \<rightharpoonup> addr"
  nodes :: "addr \<rightharpoonup> Node"
  lists :: "addr \<rightharpoonup> List"
  fresh :: addr

subsection \<open>Allocation and access through pointers\<close>

text \<open>\<open>new Node(key, val)\<close>: the constructor of lines 7-13.\<close>

definition new_Node :: "int \<Rightarrow> int \<Rightarrow> LFUCache \<Rightarrow> addr \<times> LFUCache" where
  "new_Node k v s =
     (fresh s,
      s\<lparr>nodes := (nodes s)(fresh s \<mapsto> \<lparr>key = k, val = v, count = 1, next = None, prev = None\<rparr>),
        fresh := Suc (fresh s)\<rparr>)"

text \<open>Reading \<open>*p\<close> and writing a field of \<open>*p\<close> for a nullable node pointer \<open>p\<close>.\<close>

definition node_at :: "addr option \<Rightarrow> LFUCache \<Rightarrow> Node option" where
  "node_at p s = (case p of None \<Rightarrow> None | Some a \<Rightarrow> nodes s a)"

definition upd_node :: "addr option \<Rightarrow> (Node \<Rightarrow> Node) \<Rightarrow> LFUCache \<Rightarrow> LFUCache option" where
  "upd_node p f s =
     (case p of
        None \<Rightarrow> None
      | Some a \<Rightarrow>
          (case nodes s a of
             None \<Rightarrow> None
           | Some n \<Rightarrow> Some (s\<lparr>nodes := (nodes s)(a \<mapsto> f n)\<rparr>)))"

subsection \<open>\<open>struct List\<close>: a doubly linked list between two sentinels\<close>

text \<open>\<open>new List()\<close>: the constructor of lines 22-28.\<close>

definition new_List :: "LFUCache \<Rightarrow> (addr \<times> LFUCache) option" where
  "new_List s0 = do {
     let (h, s1) = new_Node (-1) (-1) s0;
     let (t, s2) = new_Node (-1) (-1) s1;
     s3 \<leftarrow> upd_node (Some h) (\<lambda>n. n\<lparr>next := Some t\<rparr>) s2;
     s4 \<leftarrow> upd_node (Some t) (\<lambda>n. n\<lparr>prev := Some h\<rparr>) s3;
     let l = fresh s4;
     Some (l, s4\<lparr>lists := (lists s4)(l \<mapsto> \<lparr>head = h, tail = t, size = 0\<rparr>), fresh := Suc l\<rparr>)
   }"

text \<open>\<open>l->addNode(add)\<close>, lines 30-37: link \<open>add\<close> right after the head sentinel.\<close>

definition addNode :: "addr \<Rightarrow> addr \<Rightarrow> LFUCache \<Rightarrow> LFUCache option" where
  "addNode l add s0 = do {
     L \<leftarrow> lists s0 l;
     hn \<leftarrow> nodes s0 (head L);
     let headRight = next hn;
     s1 \<leftarrow> upd_node (Some add) (\<lambda>n. n\<lparr>prev := Some (head L)\<rparr>) s0;
     s2 \<leftarrow> upd_node (Some add) (\<lambda>n. n\<lparr>next := headRight\<rparr>) s1;
     s3 \<leftarrow> upd_node (Some (head L)) (\<lambda>n. n\<lparr>next := Some add\<rparr>) s2;
     s4 \<leftarrow> upd_node headRight (\<lambda>n. n\<lparr>prev := Some add\<rparr>) s3;
     Some (s4\<lparr>lists := (lists s4)(l \<mapsto> L\<lparr>size := size L + 1\<rparr>)\<rparr>)
   }"

text \<open>
  \<open>l->delNode(del)\<close>, lines 39-45: unlink \<open>del\<close> from its neighbours and decrement the size of
  \<open>l\<close>. The fields of \<open>del\<close> itself are left as they are.
\<close>

definition delNode :: "addr \<Rightarrow> addr \<Rightarrow> LFUCache \<Rightarrow> LFUCache option" where
  "delNode l del s0 = do {
     L \<leftarrow> lists s0 l;
     d \<leftarrow> nodes s0 del;
     let left = prev d;
     let right = next d;
     s1 \<leftarrow> upd_node left (\<lambda>n. n\<lparr>next := right\<rparr>) s0;
     s2 \<leftarrow> upd_node right (\<lambda>n. n\<lparr>prev := left\<rparr>) s1;
     Some (s2\<lparr>lists := (lists s2)(l \<mapsto> L\<lparr>size := size L - 1\<rparr>)\<rparr>)
   }"

subsection \<open>\<open>class LFUCache\<close>\<close>

text \<open>
  \<open>updateFreqList(node)\<close>, lines 57-75: move \<open>node\<close> from the list of its count to the list of
  the next count, creating that list when \<open>listMap\<close> has none, and advance \<open>minf\<close> when the
  list left behind was the minimum one and is now empty. The list left behind stays in
  \<open>listMap\<close>.
\<close>

definition updateFreqList :: "addr \<Rightarrow> LFUCache \<Rightarrow> LFUCache option" where
  "updateFreqList node s0 = do {
     n \<leftarrow> nodes s0 node;
     list \<leftarrow> listMap s0 (count n);
     s1 \<leftarrow> delNode list node s0;
     L \<leftarrow> lists s1 list;
     let s2 = (if count n = minf s1 \<and> size L = 0 then s1\<lparr>minf := minf s1 + 1\<rparr> else s1);
     (higherList, newList, s3) \<leftarrow>
        (case listMap s2 (count n + 1) of
           Some hl \<Rightarrow> Some (hl, False, s2)
         | None \<Rightarrow> do { (hl, s) \<leftarrow> new_List s2; Some (hl, True, s) });
     s4 \<leftarrow> upd_node (Some node) (\<lambda>m. m\<lparr>count := count m + 1\<rparr>) s3;
     s5 \<leftarrow> addNode higherList node s4;
     n' \<leftarrow> nodes s5 node;
     Some (if newList then s5\<lparr>listMap := (listMap s5)(count n' \<mapsto> higherList)\<rparr> else s5)
   }"

text \<open>
  The constructor, lines 77-81. It stores the capacity as given; the two maps start empty.
  The free store starts empty as well.
\<close>

definition new_LFUCache :: "int \<Rightarrow> LFUCache" where
  "new_LFUCache capacity =
     \<lparr>minf = 0, curSize = 0, maxSize = capacity, nodeMap = Map.empty, listMap = Map.empty,
      nodes = Map.empty, lists = Map.empty, fresh = 0\<rparr>"

text \<open>\<open>get(key)\<close>, lines 83-91. The result is the returned \<open>int\<close> and the new state.\<close>

definition get :: "int \<Rightarrow> LFUCache \<Rightarrow> (int \<times> LFUCache) option" where
  "get k s0 =
     (case nodeMap s0 k of
        Some resnode \<Rightarrow> do {
          n \<leftarrow> nodes s0 resnode;
          let res = val n;
          s1 \<leftarrow> updateFreqList resnode s0;
          Some (res, s1)
        }
      | None \<Rightarrow> Some (-1, s0))"

text \<open>
  \<open>put(key, value)\<close>, lines 93-123, in three parts: the eviction block of lines 103-109
  (without its test), the insertion of lines 111-122, and the function itself.
\<close>

definition put_evict :: "LFUCache \<Rightarrow> LFUCache option" where
  "put_evict s0 = do {
     delList \<leftarrow> listMap s0 (minf s0);
     L \<leftarrow> lists s0 delList;
     t \<leftarrow> nodes s0 (tail L);
     toBeDeleted \<leftarrow> node_at (prev t) s0;
     let s1 = s0\<lparr>nodeMap := (nodeMap s0)(key toBeDeleted := None)\<rparr>;
     t' \<leftarrow> nodes s1 (tail L);
     d \<leftarrow> prev t';
     s2 \<leftarrow> delNode delList d s1;
     Some (s2\<lparr>curSize := curSize s2 - 1\<rparr>)
   }"

definition put_insert :: "int \<Rightarrow> int \<Rightarrow> LFUCache \<Rightarrow> LFUCache option" where
  "put_insert k v s0 = do {
     let s1 = s0\<lparr>minf := 1\<rparr>;
     let (toBeAdded, s2) = new_Node k v s1;
     (minList, s3) \<leftarrow>
        (case listMap s2 (minf s2) of
           Some l \<Rightarrow> Some (l, s2)
         | None \<Rightarrow> new_List s2);
     s4 \<leftarrow> addNode minList toBeAdded s3;
     Some (s4\<lparr>curSize := curSize s4 + 1,
              nodeMap := (nodeMap s4)(k \<mapsto> toBeAdded),
              listMap := (listMap s4)(minf s4 \<mapsto> minList)\<rparr>)
   }"

definition put :: "int \<Rightarrow> int \<Rightarrow> LFUCache \<Rightarrow> LFUCache option" where
  "put k v s0 =
     (if maxSize s0 = 0 then Some s0
      else
        (case nodeMap s0 k of
           Some node \<Rightarrow> do {
             s1 \<leftarrow> upd_node (Some node) (\<lambda>n. n\<lparr>val := v\<rparr>) s0;
             updateFreqList node s1
           }
         | None \<Rightarrow> do {
             s1 \<leftarrow> (if curSize s0 = maxSize s0 then put_evict s0 else Some s0);
             put_insert k v s1
           }))"

subsection \<open>Sequences of calls\<close>

text \<open>
  A client calls \<open>get\<close> and \<open>put\<close> one after the other on one cache object. A call sequence
  is a list of operations, run from left to right; the values returned by \<open>get\<close> are
  dropped by \<open>step\<close>.
\<close>

datatype op = Get int | Put int int

fun op_key :: "op \<Rightarrow> int" where
  "op_key (Get k) = k"
| "op_key (Put k v) = k"

fun step :: "op \<Rightarrow> LFUCache \<Rightarrow> LFUCache option" where
  "step (Get k) s = map_option snd (get k s)"
| "step (Put k v) s = put k v s"

fun run :: "op list \<Rightarrow> LFUCache \<Rightarrow> LFUCache option" where
  "run [] s = Some s"
| "run (x # xs) s = (case step x s of None \<Rightarrow> None | Some s' \<Rightarrow> run xs s')"

section \<open>Heap shape: what the pointers of a well-formed cache look like\<close>

text \<open>
  The definitions of this section are not part of the program. They describe the heap
  that the program maintains, so that the operations can be shown to run without
  dereferencing a null or unallocated pointer, and to do what the claims say.

  \<open>link ns p q\<close>: in the node heap \<open>ns\<close>, \<open>p->next == q\<close> and \<open>q->prev == p\<close>, both nodes
  allocated.
\<close>

definition link :: "(addr \<rightharpoonup> Node) \<Rightarrow> addr \<Rightarrow> addr \<Rightarrow> bool" where
  "link ns p q \<longleftrightarrow> (\<exists>n m. ns p = Some n \<and> next n = Some q \<and> ns q = Some m \<and> prev m = Some p)"

text \<open>
  The nodes of a list object from its head sentinel to its tail sentinel, given the
  entries \<open>as\<close> between them; \<open>chain\<close> says that these nodes are pairwise different and
  doubly linked in this order.
\<close>

definition cells :: "List \<Rightarrow> addr list \<Rightarrow> addr list" where
  "cells L as = head L # as @ [tail L]"

definition chain :: "(addr \<rightharpoonup> Node) \<Rightarrow> List \<Rightarrow> addr list \<Rightarrow> bool" where
  "chain ns L as \<longleftrightarrow> successively (link ns) (cells L as) \<and> distinct (cells L as)"

text \<open>The payload of a node: the fields that the list operations never write.\<close>

definition data :: "Node \<Rightarrow> int \<times> int \<times> int" where
  "data n = (key n, val n, count n)"

text \<open>The list object that \<open>listMap\<close> stores for frequency \<open>f\<close>, if any.\<close>

definition bucket :: "(int \<rightharpoonup> addr) \<Rightarrow> (addr \<rightharpoonup> List) \<Rightarrow> int \<Rightarrow> List option" where
  "bucket lm ls f = (case lm f of None \<Rightarrow> None | Some l \<Rightarrow> ls l)"

text \<open>
  \<open>shape lm ns ls fr B\<close>: the heap (\<open>ns\<close>, \<open>ls\<close>, next unused address \<open>fr\<close>) represents
  the buckets \<open>B\<close> through the bucket index \<open>lm\<close>. \<open>B f\<close> lists the entry nodes of frequency
  \<open>f\<close> from the head sentinel to the tail sentinel, that is from the most recently to the least
  recently linked. Every list in \<open>lm\<close> is a chain over its bucket with the right \<open>size\<close>;
  a frequency without a list has no entries; different frequencies have different list
  objects made of different nodes; nothing is allocated at or beyond \<open>fr\<close>.
\<close>

definition shape ::
  "(int \<rightharpoonup> addr) \<Rightarrow> (addr \<rightharpoonup> Node) \<Rightarrow> (addr \<rightharpoonup> List) \<Rightarrow> addr \<Rightarrow> (int \<Rightarrow> addr list) \<Rightarrow> bool" where
  "shape lm ns ls fr B \<longleftrightarrow>
     (\<forall>f l. lm f = Some l \<longrightarrow>
        (\<exists>L. ls l = Some L \<and> chain ns L (B f) \<and> size L = int (length (B f)))) \<and>
     (\<forall>f. lm f = None \<longrightarrow> B f = []) \<and>
     (\<forall>f g l. lm f = Some l \<longrightarrow> lm g = Some l \<longrightarrow> f = g) \<and>
     (\<forall>f g L L'. f \<noteq> g \<longrightarrow> bucket lm ls f = Some L \<longrightarrow> bucket lm ls g = Some L' \<longrightarrow>
        set (cells L (B f)) \<inter> set (cells L' (B g)) = {}) \<and>
     (\<forall>a. fr \<le> a \<longrightarrow> ns a = None \<and> ls a = None)"

text \<open>Two states that differ in the heap only: no data member of the cache was written.\<close>

definition same_cache :: "LFUCache \<Rightarrow> LFUCache \<Rightarrow> bool" where
  "same_cache s s' \<longleftrightarrow> minf s' = minf s \<and> curSize s' = curSize s \<and> maxSize s' = maxSize s
     \<and> nodeMap s' = nodeMap s \<and> listMap s' = listMap s"

text \<open>A node that is linked into no list: neither an entry nor a sentinel of any bucket.\<close>

definition loose :: "(int \<rightharpoonup> addr) \<Rightarrow> (addr \<rightharpoonup> List) \<Rightarrow> (int \<Rightarrow> addr list) \<Rightarrow> addr \<Rightarrow> bool" where
  "loose lm ls B a \<longleftrightarrow> (\<forall>g L'. bucket lm ls g = Some L' \<longrightarrow> a \<notin> set (cells L' (B g)))"

section \<open>The cache invariant\<close>

text \<open>The payload (key, value, count) of the node at an address, if one is allocated there.\<close>

definition dat :: "LFUCache \<Rightarrow> addr \<Rightarrow> (int \<times> int \<times> int) option" where
  "dat s a = map_option data (nodes s a)"

text \<open>
  \<open>entries_ok s B\<close>: the key index and the buckets hold the same nodes. A node in bucket
  \<open>f\<close> has count \<open>f\<close> and is the node that \<open>nodeMap\<close> stores for its key; the node stored
  for a key carries that key and sits in the bucket of its count; \<open>curSize\<close> is the number
  of keys; counts are at least 1.
\<close>

definition entries_ok :: "LFUCache \<Rightarrow> (int \<Rightarrow> addr list) \<Rightarrow> bool" where
  "entries_ok s B \<longleftrightarrow>
     (\<forall>f a. a \<in> set (B f) \<longrightarrow> (\<exists>k v. dat s a = Some (k, v, f) \<and> nodeMap s k = Some a)) \<and>
     (\<forall>k a. nodeMap s k = Some a \<longrightarrow> (\<exists>v c. dat s a = Some (k, v, c) \<and> a \<in> set (B c))) \<and>
     finite (dom (nodeMap s)) \<and> curSize s = int (card (dom (nodeMap s))) \<and>
     (\<forall>f. B f \<noteq> [] \<longrightarrow> 1 \<le> f)"

text \<open>A well-formed heap whose buckets match the key index.\<close>

definition Inv0 :: "LFUCache \<Rightarrow> (int \<Rightarrow> addr list) \<Rightarrow> bool" where
  "Inv0 s B \<longleftrightarrow> shape (listMap s) (nodes s) (lists s) (fresh s) B \<and> entries_ok s B"

text \<open>
  \<open>min_ok s B\<close>: when the cache holds an entry, \<open>minf\<close> is the smallest frequency with a
  non-empty bucket.
\<close>

definition min_ok :: "LFUCache \<Rightarrow> (int \<Rightarrow> addr list) \<Rightarrow> bool" where
  "min_ok s B \<longleftrightarrow> (dom (nodeMap s) \<noteq> {} \<longrightarrow> B (minf s) \<noteq> [] \<and> (\<forall>f. f < minf s \<longrightarrow> B f = []))"

text \<open>The key stored in the node at an address.\<close>

definition akey :: "LFUCache \<Rightarrow> addr \<Rightarrow> int" where
  "akey s a = (case nodes s a of None \<Rightarrow> 0 | Some n \<Rightarrow> key n)"

text \<open>
  \<open>recent lt s B\<close>: with \<open>lt k\<close> the time of the last call that named key \<open>k\<close>, every
  bucket is ordered from its most recently to its least recently touched entry.
\<close>

definition recent :: "(int \<Rightarrow> nat) \<Rightarrow> LFUCache \<Rightarrow> (int \<Rightarrow> addr list) \<Rightarrow> bool" where
  "recent lt s B \<longleftrightarrow> (\<forall>f. sorted_wrt (\<lambda>a b. lt (akey s b) < lt (akey s a)) (B f))"

text \<open>
  The invariant of the cache after \<open>T\<close> calls: a well-formed heap, matching indices, the
  minimum frequency, the capacity bound (for a non-negative capacity) and the recency
  order of each bucket.
\<close>

definition Inv :: "nat \<Rightarrow> (int \<Rightarrow> nat) \<Rightarrow> LFUCache \<Rightarrow> (int \<Rightarrow> addr list) \<Rightarrow> bool" where
  "Inv T lt s B \<longleftrightarrow> Inv0 s B \<and> min_ok s B \<and> (0 \<le> maxSize s \<longrightarrow> curSize s \<le> maxSize s) \<and>
     recent lt s B \<and> (\<forall>k a. nodeMap s k = Some a \<longrightarrow> lt k \<le> T)"

section \<open>Observations used by the claims\<close>

text \<open>
  \<open>entry s k\<close>: the value and the frequency (\<open>val\<close> and \<open>count\<close> of the node) that the cache
  holds for key \<open>k\<close>; \<open>None\<close> when \<open>k\<close> is not in \<open>nodeMap\<close>.
\<close>

definition entry :: "LFUCache \<Rightarrow> int \<Rightarrow> (int \<times> int) option" where
  "entry s k = (case nodeMap s k of None \<Rightarrow> None
                | Some a \<Rightarrow> map_option (\<lambda>n. (val n, count n)) (nodes s a))"

text \<open>
  \<open>last_touch ops k\<close>: the position (counted from 1) of the last call in \<open>ops\<close> that names key
  \<open>k\<close>, and 0 when there is none. For a key that the cache holds after \<open>ops\<close> this is the call
  that inserted its entry or promoted it into its present bucket: a \<open>get\<close> that misses
  leaves the key absent, and every other call on the key moves its entry to the front of
  a bucket (lemma \<open>last_touch_moved_entry\<close>).
\<close>

definition last_touch :: "op list \<Rightarrow> int \<Rightarrow> nat" where
  "last_touch ops k = length (dropWhile (\<lambda>x. op_key x \<noteq> k) (rev ops))"




text \<open>\<open>puts_to k x\<close>: the call \<open>x\<close> is a \<open>put\<close> on key \<open>k\<close>.\<close>

fun puts_to :: "int \<Rightarrow> op \<Rightarrow> bool" where
  "puts_to k (Put k' v) = (k' = k)"
| "puts_to k (Get k') = False"

text \<open>
  \<open>stays k ops s\<close>: running \<open>ops\<close> from \<open>s\<close>, key \<open>k\<close> is in the cache before every call and
  at the end, so its entry is never evicted on the way.
\<close>

fun stays :: "int \<Rightarrow> op list \<Rightarrow> LFUCache \<Rightarrow> bool" where
  "stays k [] s = (entry s k \<noteq> None)"
| "stays k (x # xs) s =
     (entry s k \<noteq> None \<and> (case step x s of None \<Rightarrow> False | Some s' \<Rightarrow> stays k xs s'))"

text \<open>\<open>entry\<close> with the state last, for use after \<open>run\<close>.\<close>

definition entry_of :: "int \<Rightarrow> LFUCache \<Rightarrow> (int \<times> int) option" where
  "entry_of k s = entry s k"

section \<open>The program with 32-bit counters\<close>

text \<open>
  \<open>count\<close>, \<open>size\<close>, \<open>curSize\<close> and \<open>minf\<close> are C++ \<open>int\<close> fields, 32 bits wide, and the functions
  above compute with them as with integers. An increment of 2147483647 overflows; the
  compiled program then continues with the value wrapped around, \<open>-2147483648\<close>.
  \<open>int32 x\<close> is the 32-bit two's complement value that the integer \<open>x\<close> wraps around to:
  \<open>x\<close> itself when \<open>-2147483648 \<le> x \<le> 2147483647\<close>.
\<close>

definition int32 :: "int \<Rightarrow> int" where
  "int32 x = (x + 2147483648) mod 4294967296 - 2147483648"

text \<open>
  The functions of \<open>LFUCache.cpp\<close> once more, statement by statement as above, with the
  result of every \<open>++\<close>, \<open>--\<close> and \<open>+ 1\<close> on an \<open>int\<close> wrapped to 32 bits. The constructors
  do no arithmetic and are shared. Lemma \<open>run32_eq\<close> below shows that these functions and
  the ones above compute the same in the first 2147483647 calls on a new cache; lemma
  \<open>get32_wraps\<close> shows where they part.
\<close>

text \<open>\<open>l->addNode(add)\<close>, lines 30-37; \<open>size ++\<close> of line 36 wraps.\<close>

definition addNode32 :: "addr \<Rightarrow> addr \<Rightarrow> LFUCache \<Rightarrow> LFUCache option" where
  "addNode32 l add s0 = do {
     L \<leftarrow> lists s0 l;
     hn \<leftarrow> nodes s0 (head L);
     let headRight = next hn;
     s1 \<leftarrow> upd_node (Some add) (\<lambda>n. n\<lparr>prev := Some (head L)\<rparr>) s0;
     s2 \<leftarrow> upd_node (Some add) (\<lambda>n. n\<lparr>next := headRight\<rparr>) s1;
     s3 \<leftarrow> upd_node (Some (head L)) (\<lambda>n. n\<lparr>next := Some add\<rparr>) s2;
     s4 \<leftarrow> upd_node headRight (\<lambda>n. n\<lparr>prev := Some add\<rparr>) s3;
     Some (s4\<lparr>lists := (lists s4)(l \<mapsto> L\<lparr>size := int32 (size L + 1)\<rparr>)\<rparr>)
   }"

text \<open>\<open>l->delNode(del)\<close>, lines 39-45; \<open>size --\<close> of line 44 wraps.\<close>

definition delNode32 :: "addr \<Rightarrow> addr \<Rightarrow> LFUCache \<Rightarrow> LFUCache option" where
  "delNode32 l del s0 = do {
     L \<leftarrow> lists s0 l;
     d \<leftarrow> nodes s0 del;
     let left = prev d;
     let right = next d;
     s1 \<leftarrow> upd_node left (\<lambda>n. n\<lparr>next := right\<rparr>) s0;
     s2 \<leftarrow> upd_node right (\<lambda>n. n\<lparr>prev := left\<rparr>) s1;
     Some (s2\<lparr>lists := (lists s2)(l \<mapsto> L\<lparr>size := int32 (size L - 1)\<rparr>)\<rparr>)
   }"

text \<open>
  \<open>updateFreqList(node)\<close>, lines 57-75; \<open>minf++\<close> of line 61, \<open>node->count + 1\<close> of lines 65
  and 66 and \<open>(node->count)++\<close> of line 71 wrap.
\<close>

definition updateFreqList32 :: "addr \<Rightarrow> LFUCache \<Rightarrow> LFUCache option" where
  "updateFreqList32 node s0 = do {
     n \<leftarrow> nodes s0 node;
     list \<leftarrow> listMap s0 (count n);
     s1 \<leftarrow> delNode32 list node s0;
     L \<leftarrow> lists s1 list;
     let s2 = (if count n = minf s1 \<and> size L = 0 then s1\<lparr>minf := int32 (minf s1 + 1)\<rparr> else s1);
     (higherList, newList, s3) \<leftarrow>
        (case listMap s2 (int32 (count n + 1)) of
           Some hl \<Rightarrow> Some (hl, False, s2)
         | None \<Rightarrow> do { (hl, s) \<leftarrow> new_List s2; Some (hl, True, s) });
     s4 \<leftarrow> upd_node (Some node) (\<lambda>m. m\<lparr>count := int32 (count m + 1)\<rparr>) s3;
     s5 \<leftarrow> addNode32 higherList node s4;
     n' \<leftarrow> nodes s5 node;
     Some (if newList then s5\<lparr>listMap := (listMap s5)(count n' \<mapsto> higherList)\<rparr> else s5)
   }"

text \<open>\<open>get(key)\<close>, lines 83-91.\<close>

definition get32 :: "int \<Rightarrow> LFUCache \<Rightarrow> (int \<times> LFUCache) option" where
  "get32 k s0 =
     (case nodeMap s0 k of
        Some resnode \<Rightarrow> do {
          n \<leftarrow> nodes s0 resnode;
          let res = val n;
          s1 \<leftarrow> updateFreqList32 resnode s0;
          Some (res, s1)
        }
      | None \<Rightarrow> Some (- 1, s0))"

text \<open>The eviction block of \<open>put\<close>, lines 103-109; \<open>curSize--\<close> of line 108 wraps.\<close>

definition put_evict32 :: "LFUCache \<Rightarrow> LFUCache option" where
  "put_evict32 s0 = do {
     delList \<leftarrow> listMap s0 (minf s0);
     L \<leftarrow> lists s0 delList;
     t \<leftarrow> nodes s0 (tail L);
     toBeDeleted \<leftarrow> node_at (prev t) s0;
     let s1 = s0\<lparr>nodeMap := (nodeMap s0)(key toBeDeleted := None)\<rparr>;
     t' \<leftarrow> nodes s1 (tail L);
     d \<leftarrow> prev t';
     s2 \<leftarrow> delNode32 delList d s1;
     Some (s2\<lparr>curSize := int32 (curSize s2 - 1)\<rparr>)
   }"

text \<open>The insertion of \<open>put\<close>, lines 111-122; \<open>curSize++\<close> of line 120 wraps.\<close>

definition put_insert32 :: "int \<Rightarrow> int \<Rightarrow> LFUCache \<Rightarrow> LFUCache option" where
  "put_insert32 k v s0 = do {
     let s1 = s0\<lparr>minf := 1\<rparr>;
     let (toBeAdded, s2) = new_Node k v s1;
     (minList, s3) \<leftarrow>
        (case listMap s2 (minf s2) of Some l \<Rightarrow> Some (l, s2) | None \<Rightarrow> new_List s2);
     s4 \<leftarrow> addNode32 minList toBeAdded s3;
     Some (s4\<lparr>curSize := int32 (curSize s4 + 1),
              nodeMap := (nodeMap s4)(k \<mapsto> toBeAdded),
              listMap := (listMap s4)(minf s4 \<mapsto> minList)\<rparr>)
   }"

text \<open>\<open>put(key, value)\<close>, lines 93-123.\<close>

definition put32 :: "int \<Rightarrow> int \<Rightarrow> LFUCache \<Rightarrow> LFUCache option" where
  "put32 k v s0 =
     (if maxSize s0 = 0 then Some s0
      else (case nodeMap s0 k of
              Some node \<Rightarrow> do {
                s1 \<leftarrow> upd_node (Some node) (\<lambda>n. n\<lparr>val := v\<rparr>) s0;
                updateFreqList32 node s1
              }
            | None \<Rightarrow> do {
                s1 \<leftarrow> (if curSize s0 = maxSize s0 then put_evict32 s0 else Some s0);
                put_insert32 k v s1
              }))"

text \<open>Call sequences of the 32-bit program.\<close>

fun step32 :: "op \<Rightarrow> LFUCache \<Rightarrow> LFUCache option" where
  "step32 (Get k) s = map_option snd (get32 k s)"
| "step32 (Put k v) s = put32 k v s"

fun run32 :: "op list \<Rightarrow> LFUCache \<Rightarrow> LFUCache option" where
  "run32 [] s = Some s"
| "run32 (x # xs) s = (case step32 x s of None \<Rightarrow> None | Some s' \<Rightarrow> run32 xs s')"

text \<open>\<open>stays\<close> for the 32-bit program: key \<open>k\<close> is in the cache before every call and at the end.\<close>

fun stays32 :: "int \<Rightarrow> op list \<Rightarrow> LFUCache \<Rightarrow> bool" where
  "stays32 k [] s = (entry s k \<noteq> None)"
| "stays32 k (x # xs) s =
     (entry s k \<noteq> None \<and> (case step32 x s of None \<Rightarrow> False | Some s' \<Rightarrow> stays32 k xs s'))"

section \<open>The list operations on a well-formed heap\<close>

subsection \<open>Closed forms of the pointer updates\<close>

lemma upd_node_Some:
  "nodes s a = Some n \<Longrightarrow> upd_node (Some a) f s = Some (s\<lparr>nodes := (nodes s)(a \<mapsto> f n)\<rparr>)"
  by (simp add: upd_node_def)

lemma link_cong:
  assumes "map_option next (ns' p) = map_option next (ns p)"
    and "map_option prev (ns' q) = map_option prev (ns q)"
    and "(ns' p = None) = (ns p = None)" "(ns' q = None) = (ns q = None)"
  shows "link ns' p q = link ns p q"
  using assms unfolding link_def
  by (cases "ns p"; cases "ns q"; cases "ns' p"; cases "ns' q") auto

lemma successively_link_cong:
  assumes "\<forall>a\<in>set (butlast xs). map_option next (ns' a) = map_option next (ns a)"
    and "\<forall>a\<in>set (tl xs). map_option prev (ns' a) = map_option prev (ns a)"
    and "\<forall>a\<in>set xs. (ns' a = None) = (ns a = None)"
  shows "successively (link ns') xs = successively (link ns) xs"
  using assms
proof (induction xs rule: induct_list012)
  case (3 x y zs)
  have "link ns' x y = link ns x y"
    using 3(3-5) by (intro link_cong) auto
  moreover have "successively (link ns') (y # zs) = successively (link ns) (y # zs)"
    using 3(3-5) by (intro 3(2)) auto
  ultimately show ?case by simp
qed simp_all

lemma addNode_explicit:
  assumes "lists s l = Some L" "nodes s (head L) = Some hn" "next hn = Some x"
    and "nodes s x = Some xn" "nodes s add = Some n"
    and "add \<noteq> head L" "add \<noteq> x" "head L \<noteq> x"
  shows "addNode l add s =
     Some (s\<lparr>nodes := (nodes s)(add \<mapsto> n\<lparr>prev := Some (head L), next := Some x\<rparr>,
                                head L \<mapsto> hn\<lparr>next := Some add\<rparr>,
                                x \<mapsto> xn\<lparr>prev := Some add\<rparr>),
            lists := (lists s)(l \<mapsto> L\<lparr>size := size L + 1\<rparr>)\<rparr>)"
  using assms by (simp add: addNode_def upd_node_Some)

lemma delNode_explicit:
  assumes "lists s l = Some L" "nodes s d = Some dn" "prev dn = Some p" "next dn = Some q"
    and "nodes s p = Some pn" "nodes s q = Some qn" "p \<noteq> q"
  shows "delNode l d s =
     Some (s\<lparr>nodes := (nodes s)(p \<mapsto> pn\<lparr>next := Some q\<rparr>, q \<mapsto> qn\<lparr>prev := Some p\<rparr>),
            lists := (lists s)(l \<mapsto> L\<lparr>size := size L - 1\<rparr>)\<rparr>)"
  using assms by (simp add: delNode_def upd_node_Some)

lemma new_List_explicit:
  "new_List s =
     Some (Suc (Suc (fresh s)),
       s\<lparr>nodes := (nodes s)
            (fresh s \<mapsto> \<lparr>key = -1, val = -1, count = 1, next = Some (Suc (fresh s)), prev = None\<rparr>,
             Suc (fresh s) \<mapsto> \<lparr>key = -1, val = -1, count = 1, next = None, prev = Some (fresh s)\<rparr>),
         lists := (lists s)(Suc (Suc (fresh s)) \<mapsto> \<lparr>head = fresh s, tail = Suc (fresh s), size = 0\<rparr>),
         fresh := Suc (Suc (Suc (fresh s)))\<rparr>)"
  by (simp add: new_List_def new_Node_def upd_node_Some)

subsection \<open>Linking and unlinking keep a chain a chain\<close>

lemma succ_appendI:
  "successively P xs \<Longrightarrow> successively P ys \<Longrightarrow> xs \<noteq> [] \<Longrightarrow> ys \<noteq> []
     \<Longrightarrow> P (last xs) (hd ys) \<Longrightarrow> successively P (xs @ ys)"
  by (simp add: successively_append_iff)

lemma chain_first:
  assumes "chain ns L as"
  shows "\<exists>hn xn. ns (head L) = Some hn \<and> next hn = Some (hd (as @ [tail L]))
           \<and> ns (hd (as @ [tail L])) = Some xn \<and> prev xn = Some (head L)"
proof -
  obtain x rest where xr: "as @ [tail L] = x # rest" by (cases "as @ [tail L]") auto
  with assms have "link ns (head L) x" by (simp add: chain_def cells_def)
  then show ?thesis by (auto simp: link_def xr)
qed

lemma chain_last:
  assumes "chain ns L as"
  shows "\<exists>tn pn. ns (tail L) = Some tn \<and> prev tn = Some (last (head L # as))
           \<and> ns (last (head L # as)) = Some pn \<and> next pn = Some (tail L)"
proof -
  have "cells L as = (head L # as) @ [tail L]" by (simp add: cells_def)
  with assms have "link ns (last (head L # as)) (tail L)"
    unfolding chain_def by (simp only: successively_append_iff) auto
  then show ?thesis by (auto simp: link_def)
qed

lemma chain_add:
  assumes ch: "chain ns L as" and n: "ns add = Some n" and notin: "add \<notin> set (cells L as)"
    and hn: "ns (head L) = Some hn" and x: "x = hd (as @ [tail L])" and xn: "ns x = Some xn"
  shows "chain (ns(add \<mapsto> n\<lparr>prev := Some (head L), next := Some x\<rparr>,
                   head L \<mapsto> hn\<lparr>next := Some add\<rparr>,
                   x \<mapsto> xn\<lparr>prev := Some add\<rparr>)) L (add # as)"
proof -
  let ?ns' = "ns(add \<mapsto> n\<lparr>prev := Some (head L), next := Some x\<rparr>,
                   head L \<mapsto> hn\<lparr>next := Some add\<rparr>, x \<mapsto> xn\<lparr>prev := Some add\<rparr>)"
  obtain rest where xr: "as @ [tail L] = x # rest" using x by (cases "as @ [tail L]") auto
  have cs: "cells L as = head L # x # rest" by (simp add: cells_def xr)
  have dist: "distinct (head L # x # rest)" using ch by (simp add: chain_def cs)
  have ne: "add \<noteq> head L" "add \<noteq> x" "add \<notin> set rest" "head L \<noteq> x" "head L \<notin> set rest" "x \<notin> set rest"
    using notin dist by (auto simp: cs)
  have old: "successively (link ns) (x # rest)" using ch by (simp add: chain_def cs)
  have "successively (link ?ns') (x # rest) = successively (link ns) (x # rest)"
  proof (rule successively_link_cong)
    show "\<forall>a\<in>set (butlast (x # rest)). map_option next (?ns' a) = map_option next (ns a)"
      using ne xn by (auto dest: in_set_butlastD)
    show "\<forall>a\<in>set (tl (x # rest)). map_option prev (?ns' a) = map_option prev (ns a)"
      using ne by auto
    show "\<forall>a\<in>set (x # rest). (?ns' a = None) = (ns a = None)"
      using ne xn by auto
  qed
  with old have 1: "successively (link ?ns') (x # rest)" by simp
  have 2: "link ?ns' (head L) add" using ne by (simp add: link_def)
  have 3: "link ?ns' add x" using ne by (simp add: link_def)
  have "cells L (add # as) = head L # add # x # rest" by (simp add: cells_def xr)
  then show ?thesis using 1 2 3 dist ne by (simp add: chain_def)
qed

lemma chain_del:
  assumes ch: "chain ns L (xs @ d # ys)"
    and p: "p = last (head L # xs)" and q: "q = hd (ys @ [tail L])"
  shows "\<exists>dn pn qn. ns d = Some dn \<and> prev dn = Some p \<and> next dn = Some q
          \<and> ns p = Some pn \<and> ns q = Some qn \<and> p \<noteq> q
          \<and> chain (ns(p \<mapsto> pn\<lparr>next := Some q\<rparr>, q \<mapsto> qn\<lparr>prev := Some p\<rparr>)) L (xs @ ys)"
proof -
  let ?pre = "head L # xs" and ?post = "ys @ [tail L]"
  have cs: "cells L (xs @ d # ys) = ?pre @ d # ?post" by (simp add: cells_def)
  have dist: "distinct (?pre @ d # ?post)" using ch unfolding chain_def cs by simp
  have succ: "successively (link ns) (?pre @ d # ?post)" using ch unfolding chain_def cs by simp
  have pin: "p \<in> set ?pre" unfolding p by (rule last_in_set) simp
  have qin: "q \<in> set ?post" unfolding q by (rule hd_in_set) simp
  obtain post' where post: "?post = q # post'" using q by (cases ?post) auto
  obtain pre' where pre: "?pre = pre' @ [p]" using p
    by (metis append_butlast_last_id list.distinct(1))
  have pq: "p \<noteq> q" "p \<noteq> d" "q \<noteq> d" "p \<notin> set ?post" "q \<notin> set ?pre"
    using dist pin qin by auto
  have s1: "successively (link ns) ?pre" and s2: "successively (link ns) ?post"
    and l1: "link ns p d" and l2: "link ns d q"
    using succ unfolding successively_append_iff successively_Cons p q by auto
  from l1 l2 obtain dn pn qn where nd: "ns d = Some dn" "prev dn = Some p" "next dn = Some q"
    "ns p = Some pn" "ns q = Some qn"
    by (auto simp: link_def)
  let ?ns' = "ns(p \<mapsto> pn\<lparr>next := Some q\<rparr>, q \<mapsto> qn\<lparr>prev := Some p\<rparr>)"
  have "successively (link ?ns') ?pre = successively (link ns) ?pre"
  proof (rule successively_link_cong)
    have "p \<notin> set (butlast ?pre)" using dist unfolding pre by auto
    then show "\<forall>a\<in>set (butlast ?pre). map_option next (?ns' a) = map_option next (ns a)"
      using pq by (auto dest: in_set_butlastD)
    show "\<forall>a\<in>set (tl ?pre). map_option prev (?ns' a) = map_option prev (ns a)"
      using pq nd by (auto dest: list.set_sel(2)[rotated])
    show "\<forall>a\<in>set ?pre. (?ns' a = None) = (ns a = None)"
      using pq nd by auto
  qed
  with s1 have a: "successively (link ?ns') ?pre" by simp
  have "successively (link ?ns') ?post = successively (link ns) ?post"
  proof (rule successively_link_cong)
    show "\<forall>a\<in>set (butlast ?post). map_option next (?ns' a) = map_option next (ns a)"
      using pq nd by (auto dest: in_set_butlastD)
    have "q \<notin> set (tl ?post)" using dist unfolding post by auto
    then show "\<forall>a\<in>set (tl ?post). map_option prev (?ns' a) = map_option prev (ns a)"
      using pq by (auto dest: list.set_sel(2)[rotated])
    show "\<forall>a\<in>set ?post. (?ns' a = None) = (ns a = None)"
      using pq nd by auto
  qed
  with s2 have b: "successively (link ?ns') ?post" by simp
  have c: "link ?ns' p q" using pq by (simp add: link_def)
  have "cells L (xs @ ys) = ?pre @ ?post" by (simp add: cells_def)
  moreover have "successively (link ?ns') (?pre @ ?post)"
  proof (rule succ_appendI[OF a b])
    show "link ?ns' (last ?pre) (hd ?post)" using c unfolding p q .
  qed simp_all
  moreover have "distinct (?pre @ ?post)" using dist by auto
  ultimately have "chain ?ns' L (xs @ ys)" by (simp add: chain_def)
  with nd pq show ?thesis by blast
qed

subsection \<open>Buckets and their lists\<close>

lemma shapeD1:
  "shape lm ns ls fr B \<Longrightarrow> lm f = Some l \<Longrightarrow>
     \<exists>L. ls l = Some L \<and> chain ns L (B f) \<and> size L = int (length (B f))"
  by (simp add: shape_def)

lemma shapeD2: "shape lm ns ls fr B \<Longrightarrow> lm f = None \<Longrightarrow> B f = []"
  by (simp add: shape_def)

lemma shapeD3: "shape lm ns ls fr B \<Longrightarrow> lm f = Some l \<Longrightarrow> lm g = Some l \<Longrightarrow> f = g"
  unfolding shape_def by blast

lemma shapeD4:
  "shape lm ns ls fr B \<Longrightarrow> f \<noteq> g \<Longrightarrow> bucket lm ls f = Some L \<Longrightarrow> bucket lm ls g = Some L'
     \<Longrightarrow> a \<in> set (cells L (B f)) \<Longrightarrow> a \<notin> set (cells L' (B g))"
  unfolding shape_def by blast

lemma shapeD5: "shape lm ns ls fr B \<Longrightarrow> fr \<le> a \<Longrightarrow> ns a = None \<and> ls a = None"
  by (simp add: shape_def)

lemma successively_link_alloc:
  "successively (link ns) xs \<Longrightarrow> 2 \<le> length xs \<Longrightarrow> a \<in> set xs \<Longrightarrow> ns a \<noteq> None"
proof (induction xs rule: induct_list012)
  case (3 x y zs)
  then have l: "link ns x y" and s: "successively (link ns) (y # zs)" by simp_all
  show ?case
  proof (cases "a = x \<or> a = y")
    case True
    with l show ?thesis by (auto simp: link_def)
  next
    case False
    with 3(5) have "a \<in> set zs" by simp
    then have "2 \<le> length (y # zs)" by (cases zs) auto
    with 3(2) s \<open>a \<in> set zs\<close> show ?thesis by simp
  qed
qed simp_all

lemma chain_alloc: "chain ns L as \<Longrightarrow> a \<in> set (cells L as) \<Longrightarrow> ns a \<noteq> None"
  unfolding chain_def by (erule conjE, erule successively_link_alloc) (simp_all add: cells_def)

lemma chain_size_upd [simp]: "chain ns (L\<lparr>size := x\<rparr>) as = chain ns L as"
  by (simp add: chain_def cells_def)

lemma cells_size_upd [simp]: "cells (L\<lparr>size := x\<rparr>) as = cells L as"
  by (simp add: cells_def)

lemma chain_frame:
  "chain ns L as \<Longrightarrow> (\<forall>a\<in>set (cells L as). ns' a = ns a) \<Longrightarrow> chain ns' L as"
proof -
  assume ch: "chain ns L as" and eq: "\<forall>a\<in>set (cells L as). ns' a = ns a"
  have "successively (link ns') (cells L as) = successively (link ns) (cells L as)"
  proof (rule successively_link_cong)
    show "\<forall>a\<in>set (butlast (cells L as)). map_option next (ns' a) = map_option next (ns a)"
      using eq by (auto dest: in_set_butlastD)
    show "\<forall>a\<in>set (tl (cells L as)). map_option prev (ns' a) = map_option prev (ns a)"
      using eq by (auto simp: cells_def)
    show "\<forall>a\<in>set (cells L as). (ns' a = None) = (ns a = None)"
      using eq by auto
  qed
  with ch show ?thesis by (simp add: chain_def)
qed

lemma shape_cells_lt:
  assumes "shape lm ns ls fr B" "bucket lm ls g = Some L" "a \<in> set (cells L (B g))"
  shows "a < fr"
proof -
  from assms(2) obtain l where l: "lm g = Some l" "ls l = Some L"
    by (auto simp: bucket_def split: option.splits)
  with shapeD1[OF assms(1) l(1)] have "chain ns L (B g)" by auto
  from chain_alloc[OF this assms(3)] shapeD5[OF assms(1), of a] show ?thesis
    by (cases "fr \<le> a") auto
qed

lemma shape_list_lt:
  assumes "shape lm ns ls fr B" "lm g = Some l"
  shows "l < fr"
  using shapeD1[OF assms] shapeD5[OF assms(1), of l] by (cases "fr \<le> l") auto

lemma bucket_SomeD: "bucket lm ls f = Some L \<Longrightarrow> \<exists>l. lm f = Some l \<and> ls l = Some L"
  by (auto simp: bucket_def split: option.splits)

lemma shape_update:
  assumes sh: "shape lm ns ls fr B" and l: "lm f = Some l" and L: "ls l = Some L"
    and ch': "chain ns' L as'"
    and frame: "\<forall>b. b \<notin> set (cells L (B f)) \<union> X \<longrightarrow> ns' b = ns b"
    and X: "\<forall>g L'. bucket lm ls g = Some L' \<longrightarrow> X \<inter> set (cells L' (B g)) = {}"
    and sub: "set as' \<subseteq> set (B f) \<union> X"
    and dom: "\<forall>b. (ns' b = None) = (ns b = None)"
  shows "shape lm ns' (ls(l \<mapsto> L\<lparr>size := int (length as')\<rparr>)) fr (B(f := as'))"
proof -
  let ?ls' = "ls(l \<mapsto> L\<lparr>size := int (length as')\<rparr>)" and ?B' = "B(f := as')"
  have bf: "bucket lm ls f = Some L" using l L by (simp add: bucket_def)
  have other: "l' \<noteq> l" if "lm g = Some l'" "g \<noteq> f" for g l'
    using shapeD3[OF sh l, of g] that by auto
  have cells_sub: "set (cells L as') \<subseteq> set (cells L (B f)) \<union> X"
    using sub by (auto simp: cells_def)
  have c1: "\<exists>L'. ?ls' l' = Some L' \<and> chain ns' L' (?B' g) \<and> size L' = int (length (?B' g))"
    if g: "lm g = Some l'" for g l'
  proof (cases "g = f")
    case True
    with g l have "l' = l" by simp
    with True ch' show ?thesis by simp
  next
    case False
    from shapeD1[OF sh g] obtain L' where L': "ls l' = Some L'" "chain ns L' (B g)"
      "size L' = int (length (B g))" by blast
    have bg: "bucket lm ls g = Some L'" using g L' by (simp add: bucket_def)
    have "\<forall>a\<in>set (cells L' (B g)). ns' a = ns a"
    proof
      fix a assume a: "a \<in> set (cells L' (B g))"
      have "a \<notin> set (cells L (B f))" using shapeD4[OF sh False bg bf a] .
      moreover have "a \<notin> X" using X bg a by blast
      ultimately show "ns' a = ns a" using frame by simp
    qed
    from chain_frame[OF L'(2) this] L' other[OF g False] False show ?thesis by simp
  qed
  have c4: "set (cells L1 (?B' g1)) \<inter> set (cells L2 (?B' g2)) = {}"
    if ne: "g1 \<noteq> g2" and b1: "bucket lm ?ls' g1 = Some L1" and b2: "bucket lm ?ls' g2 = Some L2"
    for g1 g2 L1 L2
  proof -
    have old: "\<exists>L0. bucket lm ls g = Some L0 \<and> set (cells L0' (?B' g)) \<subseteq> set (cells L0 (B g)) \<union> (if g = f then X else {})"
      if "bucket lm ?ls' g = Some L0'" for g L0'
    proof (cases "g = f")
      case True
      with that l have "L0' = L\<lparr>size := int (length as')\<rparr>" by (simp add: bucket_def)
      with True bf cells_sub show ?thesis by auto
    next
      case False
      from bucket_SomeD[OF that] obtain l' where "lm g = Some l'" "?ls' l' = Some L0'" by blast
      with other[OF this(1) False] False show ?thesis by (auto simp: bucket_def)
    qed
    from old[OF b1] obtain K1 where K1: "bucket lm ls g1 = Some K1"
      "set (cells L1 (?B' g1)) \<subseteq> set (cells K1 (B g1)) \<union> (if g1 = f then X else {})" by blast
    from old[OF b2] obtain K2 where K2: "bucket lm ls g2 = Some K2"
      "set (cells L2 (?B' g2)) \<subseteq> set (cells K2 (B g2)) \<union> (if g2 = f then X else {})" by blast
    have d: "set (cells K1 (B g1)) \<inter> set (cells K2 (B g2)) = {}"
      using shapeD4[OF sh ne K1(1) K2(1)] by blast
    have x1: "X \<inter> set (cells K1 (B g1)) = {}" using X K1(1) by blast
    have x2: "X \<inter> set (cells K2 (B g2)) = {}" using X K2(1) by blast
    show ?thesis
    proof (cases "g1 = f")
      case True
      with ne have "g2 \<noteq> f" by simp
      with True K1(2) K2(2) have "set (cells L1 (?B' g1)) \<subseteq> set (cells K1 (B g1)) \<union> X"
        "set (cells L2 (?B' g2)) \<subseteq> set (cells K2 (B g2))" by simp_all
      with d x2 show ?thesis by blast
    next
      case False
      with K1(2) have s1: "set (cells L1 (?B' g1)) \<subseteq> set (cells K1 (B g1))" by simp
      have "set (cells L2 (?B' g2)) \<subseteq> set (cells K2 (B g2)) \<union> X" using K2(2) by (auto split: if_splits)
      with s1 d x1 show ?thesis by blast
    qed
  qed
  have c5: "ns' a = None \<and> ?ls' a = None" if "fr \<le> a" for a
    using shapeD5[OF sh that] dom shape_list_lt[OF sh l] that by auto
  have c2: "?B' g = []" if "lm g = None" for g
    using shapeD2[OF sh that] that l by auto
  show ?thesis
    unfolding shape_def using c1 c2 c4 c5 shapeD3[OF sh] by blast
qed

lemma shape_del:
  assumes sh: "shape lm (nodes s) (lists s) fr B" and l: "lm f = Some l" and a: "a \<in> set (B f)"
  shows "\<exists>ns' L. lists s l = Some L \<and> size L = int (length (B f)) \<and>
     delNode l a s = Some (s\<lparr>nodes := ns', lists := (lists s)(l \<mapsto> L\<lparr>size := size L - 1\<rparr>)\<rparr>) \<and>
     shape lm ns' ((lists s)(l \<mapsto> L\<lparr>size := size L - 1\<rparr>)) fr (B(f := remove1 a (B f))) \<and>
     (\<forall>b. map_option data (ns' b) = map_option data (nodes s b))"
proof -
  from shapeD1[OF sh l] obtain L where L: "lists s l = Some L" "chain (nodes s) L (B f)"
    "size L = int (length (B f))" by blast
  from split_list_first[OF a] obtain xs ys where xy: "B f = xs @ a # ys" "a \<notin> set xs" by blast
  have rm: "remove1 a (B f) = xs @ ys" using xy by (simp add: remove1_append)
  define p q where "p = last (head L # xs)" and "q = hd (ys @ [tail L])"
  from chain_del[OF L(2)[unfolded xy(1)] p_def q_def]
  obtain dn pn qn where d: "nodes s a = Some dn" "prev dn = Some p" "next dn = Some q"
    "nodes s p = Some pn" "nodes s q = Some qn" "p \<noteq> q"
    and ch': "chain ((nodes s)(p \<mapsto> pn\<lparr>next := Some q\<rparr>, q \<mapsto> qn\<lparr>prev := Some p\<rparr>)) L (xs @ ys)"
    by blast
  let ?ns' = "(nodes s)(p \<mapsto> pn\<lparr>next := Some q\<rparr>, q \<mapsto> qn\<lparr>prev := Some p\<rparr>)"
  have pin: "p \<in> set (cells L (B f))"
    using last_in_set[of "head L # xs"] by (auto simp: p_def cells_def xy(1) simp del: last.simps)
  have qin: "q \<in> set (cells L (B f))"
    using hd_in_set[of "ys @ [tail L]"] by (auto simp: q_def cells_def xy(1))
  have sh': "shape lm ?ns' ((lists s)(l \<mapsto> L\<lparr>size := int (length (xs @ ys))\<rparr>)) fr (B(f := xs @ ys))"
  proof (rule shape_update[OF sh l L(1) ch', where X = "{}"])
    show "\<forall>b. b \<notin> set (cells L (B f)) \<union> {} \<longrightarrow> ?ns' b = nodes s b"
      using pin qin by auto
    show "set (xs @ ys) \<subseteq> set (B f) \<union> {}" by (auto simp: xy(1))
    show "\<forall>b. (?ns' b = None) = (nodes s b = None)" using d by auto
  qed simp
  have eq: "int (length (xs @ ys)) = size L - 1" using L(3) xy(1) by simp
  have dt: "\<forall>b. map_option data (?ns' b) = map_option data (nodes s b)"
    using d by (auto simp: data_def)
  from sh'[unfolded eq] dt delNode_explicit[OF L(1) d] L(1,3) show ?thesis
    unfolding rm by blast
qed

lemma shape_add:
  assumes sh: "shape lm (nodes s) (lists s) fr B" and l: "lm f = Some l"
    and n: "nodes s a = Some n"
    and notin: "\<forall>g L'. bucket lm (lists s) g = Some L' \<longrightarrow> a \<notin> set (cells L' (B g))"
  shows "\<exists>ns' L. lists s l = Some L \<and>
     addNode l a s = Some (s\<lparr>nodes := ns', lists := (lists s)(l \<mapsto> L\<lparr>size := size L + 1\<rparr>)\<rparr>) \<and>
     shape lm ns' ((lists s)(l \<mapsto> L\<lparr>size := size L + 1\<rparr>)) fr (B(f := a # B f)) \<and>
     (\<forall>b. map_option data (ns' b) = map_option data (nodes s b))"
proof -
  from shapeD1[OF sh l] obtain L where L: "lists s l = Some L" "chain (nodes s) L (B f)"
    "size L = int (length (B f))" by blast
  have bf: "bucket lm (lists s) f = Some L" using l L by (simp add: bucket_def)
  have an: "a \<notin> set (cells L (B f))" using notin bf by blast
  define x where "x = hd (B f @ [tail L])"
  from chain_first[OF L(2)] obtain hn xn where h: "nodes s (head L) = Some hn" "next hn = Some x"
    "nodes s x = Some xn" unfolding x_def by blast
  let ?ns' = "(nodes s)(a \<mapsto> n\<lparr>prev := Some (head L), next := Some x\<rparr>,
                   head L \<mapsto> hn\<lparr>next := Some a\<rparr>, x \<mapsto> xn\<lparr>prev := Some a\<rparr>)"
  have ch': "chain ?ns' L (a # B f)" using chain_add[OF L(2) n an h(1) x_def h(3)] .
  have xin: "x \<in> set (cells L (B f))" "head L \<in> set (cells L (B f))"
    using hd_in_set[of "B f @ [tail L]"] by (auto simp: x_def cells_def)
  have hx: "head L \<noteq> x" using L(2) by (cases "B f") (auto simp: chain_def cells_def x_def)
  have ne: "a \<noteq> head L" "a \<noteq> x" using an xin by auto
  have sh': "shape lm ?ns' ((lists s)(l \<mapsto> L\<lparr>size := int (length (a # B f))\<rparr>)) fr (B(f := a # B f))"
  proof (rule shape_update[OF sh l L(1) ch', where X = "{a}"])
    show "\<forall>b. b \<notin> set (cells L (B f)) \<union> {a} \<longrightarrow> ?ns' b = nodes s b"
      using xin by auto
    show "\<forall>g L'. bucket lm (lists s) g = Some L' \<longrightarrow> {a} \<inter> set (cells L' (B g)) = {}"
      using notin by auto
    show "set (a # B f) \<subseteq> set (B f) \<union> {a}" by auto
    show "\<forall>b. (?ns' b = None) = (nodes s b = None)" using h n by auto
  qed
  have eq: "int (length (a # B f)) = size L + 1" using L(3) by simp
  have dt: "\<forall>b. map_option data (?ns' b) = map_option data (nodes s b)"
    using h n by (auto simp: data_def)
  from sh'[unfolded eq] dt addNode_explicit[OF L(1) h n ne hx] L(1) show ?thesis
    by blast
qed

lemma shape_new:
  assumes sh: "shape lm (nodes s) (lists s) (fresh s) B" and f: "lm f = None"
  shows "\<exists>l s'. new_List s = Some (l, s') \<and> l = Suc (Suc (fresh s)) \<and>
     same_cache s s' \<and>
     lists s' = (lists s)(l \<mapsto> \<lparr>head = fresh s, tail = Suc (fresh s), size = 0\<rparr>) \<and>
     shape (lm(f \<mapsto> l)) (nodes s') (lists s') (fresh s') B \<and>
     (\<forall>b. nodes s b \<noteq> None \<longrightarrow> nodes s' b = nodes s b)"
proof -
  let ?fr = "fresh s"
  let ?l = "Suc (Suc ?fr)"
  let ?L = "\<lparr>head = ?fr, tail = Suc ?fr, size = 0\<rparr>"
  let ?ns' = "(nodes s)
            (?fr \<mapsto> \<lparr>key = -1, val = -1, count = 1, next = Some (Suc ?fr), prev = None\<rparr>,
             Suc ?fr \<mapsto> \<lparr>key = -1, val = -1, count = 1, next = None, prev = Some ?fr\<rparr>)"
  let ?ls' = "(lists s)(?l \<mapsto> ?L)"
  let ?lm' = "lm(f \<mapsto> ?l)"
  have Bf: "B f = []" using shapeD2[OF sh f] .
  have old_l: "l' < ?fr" if "lm g = Some l'" for g l' using shape_list_lt[OF sh that] .
  have c1: "\<exists>L'. ?ls' l' = Some L' \<and> chain ?ns' L' (B g) \<and> size L' = int (length (B g))"
    if g: "?lm' g = Some l'" for g l'
  proof (cases "g = f")
    case True
    with g have "l' = ?l" by simp
    then show ?thesis using True Bf by (simp add: chain_def cells_def link_def)
  next
    case False
    with g have g': "lm g = Some l'" by simp
    from shapeD1[OF sh g'] obtain L' where L': "lists s l' = Some L'" "chain (nodes s) L' (B g)"
      "size L' = int (length (B g))" by blast
    have bg: "bucket lm (lists s) g = Some L'" using g' L' by (simp add: bucket_def)
    have "\<forall>a\<in>set (cells L' (B g)). ?ns' a = nodes s a"
      using shape_cells_lt[OF sh bg] by fastforce
    from chain_frame[OF L'(2) this] have ch: "chain ?ns' L' (B g)" .
    have "?ls' l' = Some L'" using L'(1) old_l[OF g'] by simp
    with ch L'(3) show ?thesis by blast
  qed
  have c3: "g1 = g2" if "?lm' g1 = Some l'" "?lm' g2 = Some l'" for g1 g2 l'
    using that shapeD3[OF sh, of g1 l' g2] old_l[of g1] old_l[of g2]
    by (auto split: if_splits)
  have old: "(g = f \<and> L0 = ?L) \<or> (g \<noteq> f \<and> bucket lm (lists s) g = Some L0)"
    if "bucket ?lm' ?ls' g = Some L0" for g L0
    using that old_l[of g] by (auto simp: bucket_def split: option.splits if_splits)
  have c4: "set (cells L1 (B g1)) \<inter> set (cells L2 (B g2)) = {}"
    if ne: "g1 \<noteq> g2" and b1: "bucket ?lm' ?ls' g1 = Some L1" and b2: "bucket ?lm' ?ls' g2 = Some L2"
    for g1 g2 L1 L2
  proof -
    have new: "set (cells ?L (B f)) = {?fr, Suc ?fr}" using Bf by (auto simp: cells_def)
    have lt: "\<forall>a\<in>set (cells L0 (B g)). a < ?fr" if "bucket lm (lists s) g = Some L0" for g L0
      using shape_cells_lt[OF sh that] by blast
    from old[OF b1] old[OF b2] ne show ?thesis
    proof (elim disjE conjE)
      assume "g1 \<noteq> f" "bucket lm (lists s) g1 = Some L1" "g2 \<noteq> f" "bucket lm (lists s) g2 = Some L2"
      with shapeD4[OF sh ne] show ?thesis by blast
    next
      assume "g1 = f" "L1 = ?L" "g2 \<noteq> f" "bucket lm (lists s) g2 = Some L2"
      with new lt[of g2 L2] show ?thesis by fastforce
    next
      assume "g2 = f" "L2 = ?L" "g1 \<noteq> f" "bucket lm (lists s) g1 = Some L1"
      with new lt[of g1 L1] show ?thesis by fastforce
    qed simp
  qed
  have c5: "?ns' a = None \<and> ?ls' a = None" if "Suc (Suc (Suc ?fr)) \<le> a" for a
    using shapeD5[OF sh, of a] that by auto
  have c2: "B g = []" if "?lm' g = None" for g
    using shapeD2[OF sh, of g] that by (auto split: if_splits)
  have "shape ?lm' ?ns' ?ls' (Suc (Suc (Suc ?fr))) B"
    unfolding shape_def using c1 c2 c3 c4 c5 by blast
  moreover have "\<forall>b. nodes s b \<noteq> None \<longrightarrow> ?ns' b = nodes s b"
  proof (intro allI impI)
    fix b assume "nodes s b \<noteq> None"
    with shapeD5[OF sh, of b] have "b < ?fr" by (cases "?fr \<le> b") auto
    then show "?ns' b = nodes s b" by simp
  qed
  ultimately show ?thesis
    by (simp add: new_List_explicit same_cache_def)
qed

lemma chain_cong:
  assumes "chain ns L as"
    and "\<forall>a\<in>set (cells L as). map_option next (ns' a) = map_option next (ns a)
            \<and> map_option prev (ns' a) = map_option prev (ns a)"
  shows "chain ns' L as"
proof -
  have "successively (link ns') (cells L as) = successively (link ns) (cells L as)"
  proof (rule successively_link_cong)
    show "\<forall>a\<in>set (butlast (cells L as)). map_option next (ns' a) = map_option next (ns a)"
      using assms(2) by (auto dest: in_set_butlastD)
    show "\<forall>a\<in>set (tl (cells L as)). map_option prev (ns' a) = map_option prev (ns a)"
      using assms(2) by (auto simp: cells_def)
    show "\<forall>a\<in>set (cells L as). (ns' a = None) = (ns a = None)"
    proof
      fix a assume "a \<in> set (cells L as)"
      with assms(2) have "map_option next (ns' a) = map_option next (ns a)" by blast
      then show "(ns' a = None) = (ns a = None)" by (cases "ns a"; cases "ns' a") auto
    qed
  qed
  with assms(1) show ?thesis by (simp add: chain_def)
qed

lemma shape_same_lists:
  assumes sh: "shape lm ns ls fr B"
    and ch: "\<And>L as. chain ns L as \<Longrightarrow> chain ns' L as"
    and fr: "\<And>a. fr' \<le> a \<Longrightarrow> ns' a = None \<and> ls a = None"
  shows "shape lm ns' ls fr' B"
  unfolding shape_def
proof (intro conjI allI impI)
  fix f l assume "lm f = Some l"
  from shapeD1[OF sh this] ch
  show "\<exists>L. ls l = Some L \<and> chain ns' L (B f) \<and> size L = int (length (B f))" by blast
next
  fix f assume "lm f = None" then show "B f = []" using shapeD2[OF sh] by simp
next
  fix f g l assume "lm f = Some l" "lm g = Some l" then show "f = g" using shapeD3[OF sh] by blast
next
  fix f g L L' assume "f \<noteq> g" "bucket lm ls f = Some L" "bucket lm ls g = Some L'"
  then show "set (cells L (B f)) \<inter> set (cells L' (B g)) = {}"
    using shapeD4[OF sh] by blast
next
  fix a assume "fr' \<le> a" then show "ns' a = None" using fr by blast
next
  fix a assume "fr' \<le> a" then show "ls a = None" using fr by blast
qed

lemma shape_data_upd:
  assumes sh: "shape lm ns ls fr B" and n: "ns a = Some n"
    and m: "next m = next n" "prev m = prev n"
  shows "shape lm (ns(a \<mapsto> m)) ls fr B"
proof (rule shape_same_lists[OF sh])
  fix L as assume "chain ns L as"
  then show "chain (ns(a \<mapsto> m)) L as"
    by (rule chain_cong) (use n m in auto)
next
  fix b assume "fr \<le> b"
  with shapeD5[OF sh this] n show "(ns(a \<mapsto> m)) b = None \<and> ls b = None" by auto
qed

lemma shape_alloc:
  assumes sh: "shape lm ns ls fr B"
  shows "shape lm (ns(fr \<mapsto> n)) ls (Suc fr) B"
  unfolding shape_def
proof (intro conjI allI impI)
  fix f l assume l: "lm f = Some l"
  from shapeD1[OF sh this] obtain L where L: "ls l = Some L" "chain ns L (B f)"
    "size L = int (length (B f))" by blast
  have "bucket lm ls f = Some L" using l L by (simp add: bucket_def)
  from shape_cells_lt[OF sh this] have "\<forall>a\<in>set (cells L (B f)). (ns(fr \<mapsto> n)) a = ns a"
    by fastforce
  from chain_frame[OF L(2) this] L
  show "\<exists>L. ls l = Some L \<and> chain (ns(fr \<mapsto> n)) L (B f) \<and> size L = int (length (B f))" by blast
next
  fix f assume "lm f = None" then show "B f = []" using shapeD2[OF sh] by simp
next
  fix f g l assume "lm f = Some l" "lm g = Some l" then show "f = g" using shapeD3[OF sh] by blast
next
  fix f g L L' assume "f \<noteq> g" "bucket lm ls f = Some L" "bucket lm ls g = Some L'"
  then show "set (cells L (B f)) \<inter> set (cells L' (B g)) = {}"
    using shapeD4[OF sh] by blast
next
  fix a assume "Suc fr \<le> a" then show "(ns(fr \<mapsto> n)) a = None" using shapeD5[OF sh, of a] by simp
next
  fix a assume "Suc fr \<le> a" then show "ls a = None" using shapeD5[OF sh, of a] by simp
qed

lemma loose_fresh:
  assumes sh: "shape lm ns ls fr B" and "fr \<le> a"
  shows "loose lm ls B a"
  unfolding loose_def using shape_cells_lt[OF sh] assms(2) by fastforce

lemma shape_del_loose:
  assumes sh: "shape lm ns ls fr B" and l: "lm f = Some l" and L: "ls l = Some L"
    and a: "a \<in> set (B f)"
  shows "loose lm (ls(l \<mapsto> L\<lparr>size := x\<rparr>)) (B(f := remove1 a (B f))) a"
  unfolding loose_def
proof (intro allI impI)
  fix g L' assume b: "bucket lm (ls(l \<mapsto> L\<lparr>size := x\<rparr>)) g = Some L'"
  have bf: "bucket lm ls f = Some L" using l L by (simp add: bucket_def)
  from shapeD1[OF sh l] L have ch: "chain ns L (B f)" by auto
  show "a \<notin> set (cells L' ((B(f := remove1 a (B f))) g))"
  proof (cases "g = f")
    case True
    with b l have L': "L' = L\<lparr>size := x\<rparr>" by (simp add: bucket_def)
    have "distinct (cells L (B f))" using ch by (simp add: chain_def)
    then have "a \<noteq> head L" "a \<noteq> tail L" "distinct (B f)" using a by (auto simp: cells_def)
    then show ?thesis using True L' by (simp add: cells_def)
  next
    case False
    from bucket_SomeD[OF b] obtain l' where l': "lm g = Some l'" "(ls(l \<mapsto> L\<lparr>size := x\<rparr>)) l' = Some L'"
      by blast
    have "l' \<noteq> l" using shapeD3[OF sh l, of g] l'(1) False by auto
    with l' have bg: "bucket lm ls g = Some L'" by (simp add: bucket_def)
    have "a \<in> set (cells L (B f))" using a by (simp add: cells_def)
    from shapeD4[OF sh _ bf bg this] False show ?thesis by auto
  qed
qed

lemma shape_new_loose:
  assumes sh: "shape lm ns ls fr B" and lo: "loose lm ls B a" and a: "a < fr" and f: "lm f = None"
  shows "loose (lm(f \<mapsto> l)) (ls(l \<mapsto> \<lparr>head = fr, tail = Suc fr, size = 0\<rparr>)) B a"
  unfolding loose_def
proof (intro allI impI)
  fix g L' assume b: "bucket (lm(f \<mapsto> l)) (ls(l \<mapsto> \<lparr>head = fr, tail = Suc fr, size = 0\<rparr>)) g = Some L'"
  show "a \<notin> set (cells L' (B g))"
  proof (cases "g = f")
    case True
    with b have "L' = \<lparr>head = fr, tail = Suc fr, size = 0\<rparr>" by (simp add: bucket_def)
    with True a shapeD2[OF sh f] show ?thesis by (simp add: cells_def)
  next
    case False
    with b obtain l' where l': "lm g = Some l'" "(ls(l \<mapsto> \<lparr>head = fr, tail = Suc fr, size = 0\<rparr>)) l' = Some L'"
      by (auto simp: bucket_def split: option.splits)
    show ?thesis
    proof (cases "l' = l")
      case True
      with l' have L': "L' = \<lparr>head = fr, tail = Suc fr, size = 0\<rparr>" by simp
      from shapeD1[OF sh l'(1)] obtain L0 where L0: "ls l' = Some L0" "chain ns L0 (B g)"
        "size L0 = int (length (B g))" by blast
      then have bg: "bucket lm ls g = Some L0" using l' by (simp add: bucket_def)
      from lo bg have "a \<notin> set (B g)" by (auto simp: loose_def cells_def)
      with L' a show ?thesis by (simp add: cells_def)
    next
      case False
      with l' have "bucket lm ls g = Some L'" by (simp add: bucket_def)
      with lo show ?thesis by (simp add: loose_def)
    qed
  qed
qed

subsection \<open>\<open>updateFreqList\<close> on a well-formed heap\<close>

lemma shape_ensure:
  assumes sh: "shape (listMap s) (nodes s) (lists s) (fresh s) B"
    and lo: "loose (listMap s) (lists s) B a" and a: "nodes s a \<noteq> None"
  shows "\<exists>l s'. (case listMap s f of Some hl \<Rightarrow> Some (hl, s) | None \<Rightarrow> new_List s) = Some (l, s') \<and>
      (case listMap s f of Some hl \<Rightarrow> Some (hl, False, s)
         | None \<Rightarrow> do { (hl, s') \<leftarrow> new_List s; Some (hl, True, s') }) = Some (l, listMap s f = None, s') \<and>
      same_cache s s' \<and>
      shape ((listMap s)(f \<mapsto> l)) (nodes s') (lists s') (fresh s') B \<and>
      loose ((listMap s)(f \<mapsto> l)) (lists s') B a \<and>
      (\<forall>b. nodes s b \<noteq> None \<longrightarrow> nodes s' b = nodes s b)"
proof (cases "listMap s f")
  case (Some l)
  then have "(listMap s)(f \<mapsto> l) = listMap s" by (simp add: map_upd_triv)
  with Some sh lo show ?thesis by (simp add: same_cache_def)
next
  case None
  let ?fr = "fresh s"
  let ?l = "Suc (Suc ?fr)"
  from shape_new[OF sh None] obtain s' where s': "new_List s = Some (?l, s')"
    "same_cache s s'"
    "lists s' = (lists s)(?l \<mapsto> \<lparr>head = ?fr, tail = Suc ?fr, size = 0\<rparr>)"
    "shape ((listMap s)(f \<mapsto> ?l)) (nodes s') (lists s') (fresh s') B"
    "\<forall>b. nodes s b \<noteq> None \<longrightarrow> nodes s' b = nodes s b" by blast
  note ls' = s'(3)
  have "a < ?fr" using a shapeD5[OF sh, of a] by (cases "?fr \<le> a") auto
  from shape_new_loose[OF sh lo this None]
  have "loose ((listMap s)(f \<mapsto> ?l)) (lists s') B a" unfolding ls' .
  with s' None show ?thesis by simp
qed

lemma length_one_iff: "a \<in> set xs \<Longrightarrow> (length xs = 1) = (xs = [a])"
  by (cases xs) auto

lemma updateFreqList_run:
  assumes "nodes s a = Some n" "listMap s (count n) = Some l" "delNode l a s = Some s1"
    and "lists s1 l = Some L1"
    and s2: "s2 = (if count n = minf s1 \<and> size L1 = 0 then s1\<lparr>minf := minf s1 + 1\<rparr> else s1)"
    and "(case listMap s2 (count n + 1) of Some hl \<Rightarrow> Some (hl, False, s2)
         | None \<Rightarrow> do { (hl, s') \<leftarrow> new_List s2; Some (hl, True, s') }) = Some (hl, nl, s3)"
    and "upd_node (Some a) (\<lambda>m. m\<lparr>count := count m + 1\<rparr>) s3 = Some s4"
    and "addNode hl a s4 = Some s5" "nodes s5 a = Some n5"
  shows "updateFreqList a s = Some (if nl then s5\<lparr>listMap := (listMap s5)(count n5 \<mapsto> hl)\<rparr> else s5)"
  unfolding updateFreqList_def using assms(1-4,6-) by (simp add: s2[symmetric])

lemma updateFreqList_shape:
  assumes sh: "shape (listMap s) (nodes s) (lists s) (fresh s) B"
    and n: "nodes s a = Some n" and c: "c = count n" and a: "a \<in> set (B c)"
  shows "\<exists>s'. updateFreqList a s = Some s' \<and>
      shape (listMap s') (nodes s') (lists s') (fresh s')
        (B(c := remove1 a (B c), c + 1 := a # B (c + 1))) \<and>
      nodeMap s' = nodeMap s \<and> curSize s' = curSize s \<and> maxSize s' = maxSize s \<and>
      minf s' = (if c = minf s \<and> B c = [a] then minf s + 1 else minf s) \<and>
      map_option data (nodes s' a) = Some (key n, val n, c + 1) \<and>
      (\<forall>b. b \<noteq> a \<longrightarrow> nodes s b \<noteq> None \<longrightarrow> map_option data (nodes s' b) = map_option data (nodes s b))"
proof -
  let ?B1 = "B(c := remove1 a (B c))"
  obtain l where l: "listMap s c = Some l"
    using shapeD2[OF sh, of c] a by (cases "listMap s c") auto
  from shape_del[OF sh l a] obtain ns1 L where L: "lists s l = Some L" "size L = int (length (B c))"
    and del: "delNode l a s = Some (s\<lparr>nodes := ns1, lists := (lists s)(l \<mapsto> L\<lparr>size := size L - 1\<rparr>)\<rparr>)"
    and sh1: "shape (listMap s) ns1 ((lists s)(l \<mapsto> L\<lparr>size := size L - 1\<rparr>)) (fresh s) ?B1"
    and d1: "\<forall>b. map_option data (ns1 b) = map_option data (nodes s b)"
    by blast
  define m2 where "m2 = (if c = minf s \<and> B c = [a] then minf s + 1 else minf s)"
  define s2 where "s2 = s\<lparr>nodes := ns1, lists := (lists s)(l \<mapsto> L\<lparr>size := size L - 1\<rparr>), minf := m2\<rparr>"
  have lo1: "loose (listMap s2) (lists s2) ?B1 a"
    using shape_del_loose[OF sh l L(1) a] by (simp add: s2_def)
  have sh2: "shape (listMap s2) (nodes s2) (lists s2) (fresh s2) ?B1"
    using sh1 by (simp add: s2_def)
  have a2: "nodes s2 a \<noteq> None" using d1[rule_format, of a] n by (auto simp: s2_def)
  from shape_ensure[OF sh2 lo1 a2, of "c + 1"] obtain hl s3 where
    ens: "(case listMap s2 (c + 1) of Some hl \<Rightarrow> Some (hl, False, s2)
         | None \<Rightarrow> do { (hl, s') \<leftarrow> new_List s2; Some (hl, True, s') }) = Some (hl, listMap s2 (c + 1) = None, s3)"
    and s3: "same_cache s2 s3"
    and sh3: "shape ((listMap s2)(c + 1 \<mapsto> hl)) (nodes s3) (lists s3) (fresh s3) ?B1"
    and lo3: "loose ((listMap s2)(c + 1 \<mapsto> hl)) (lists s3) ?B1 a"
    and fr3: "\<forall>b. nodes s2 b \<noteq> None \<longrightarrow> nodes s3 b = nodes s2 b"
    by blast
  obtain n3 where n3: "nodes s3 a = Some n3" "data n3 = data n"
    using fr3 a2 d1[rule_format, of a] n by (auto simp: s2_def)
  define s4 where "s4 = s3\<lparr>nodes := (nodes s3)(a \<mapsto> n3\<lparr>count := count n3 + 1\<rparr>)\<rparr>"
  have up4: "upd_node (Some a) (\<lambda>m. m\<lparr>count := count m + 1\<rparr>) s3 = Some s4"
    using n3 by (simp add: upd_node_Some s4_def)
  let ?lm = "(listMap s2)(c + 1 \<mapsto> hl)"
  have sh4: "shape ?lm (nodes s4) (lists s4) (fresh s4) ?B1"
    using shape_data_upd[OF sh3 n3(1), of "n3\<lparr>count := count n3 + 1\<rparr>"] by (simp add: s4_def)
  have lo4: "loose ?lm (lists s4) ?B1 a" using lo3 by (simp add: s4_def)
  have n4: "nodes s4 a = Some (n3\<lparr>count := count n3 + 1\<rparr>)" by (simp add: s4_def)
  have lmh: "?lm (c + 1) = Some hl" by simp
  from shape_add[OF sh4 lmh n4 lo4[unfolded loose_def]]
  obtain ns5 H where H: "lists s4 hl = Some H"
    and add: "addNode hl a s4 = Some (s4\<lparr>nodes := ns5, lists := (lists s4)(hl \<mapsto> H\<lparr>size := size H + 1\<rparr>)\<rparr>)"
    and sh5: "shape ?lm ns5 ((lists s4)(hl \<mapsto> H\<lparr>size := size H + 1\<rparr>)) (fresh s4) (?B1(c + 1 := a # ?B1 (c + 1)))"
    and d5: "\<forall>b. map_option data (ns5 b) = map_option data (nodes s4 b)"
    by blast
  define s5 where "s5 = s4\<lparr>nodes := ns5, lists := (lists s4)(hl \<mapsto> H\<lparr>size := size H + 1\<rparr>)\<rparr>"
  obtain n5 where n5: "nodes s5 a = Some n5" "data n5 = data (n3\<lparr>count := count n3 + 1\<rparr>)"
    using d5[rule_format, of a] n4 by (auto simp: s5_def)
  define s6 where "s6 = s5\<lparr>listMap := ?lm\<rparr>"
  have fin: "(if listMap s2 (c + 1) = None then s5\<lparr>listMap := (listMap s5)(count n5 \<mapsto> hl)\<rparr> else s5) = s6"
  proof -
    have cn: "count n5 = c + 1" using n5(2) n3(2) c by (simp add: data_def)
    have lm5: "listMap s5 = listMap s2" using s3 by (simp add: s5_def s4_def same_cache_def)
    show ?thesis
    proof (cases "listMap s2 (c + 1)")
      case None
      then show ?thesis by (simp add: s6_def cn lm5)
    next
      case (Some hl')
      with ens have "hl' = hl" by simp
      with Some have "?lm = listMap s5" by (simp add: lm5 map_upd_triv)
      then show ?thesis using Some by (simp add: s6_def)
    qed
  qed
  have L1: "lists (s\<lparr>nodes := ns1, lists := (lists s)(l \<mapsto> L\<lparr>size := size L - 1\<rparr>)\<rparr>) l = Some (L\<lparr>size := size L - 1\<rparr>)"
    by simp
  have cond: "(c = minf s \<and> size L - 1 = 0) = (c = minf s \<and> B c = [a])"
    using L(2) length_one_iff[OF a] by auto
  define s1 where "s1 = s\<lparr>nodes := ns1, lists := (lists s)(l \<mapsto> L\<lparr>size := size L - 1\<rparr>)\<rparr>"
  have s2': "s2 = (if count n = minf s1 \<and> size (L\<lparr>size := size L - 1\<rparr>) = 0
        then s1\<lparr>minf := minf s1 + 1\<rparr> else s1)"
    using cond by (cases "c = minf s \<and> B c = [a]") (simp_all add: s2_def m2_def s1_def c)
  have run: "updateFreqList a s = Some s6"
    using updateFreqList_run[OF n l[unfolded c] del[folded s1_def] L1[folded s1_def] s2'
        ens[unfolded c] up4 add[folded s5_def] n5(1)] fin
    by (simp add: c)
  have f3: "fresh s4 = fresh s6" "lists s6 = (lists s4)(hl \<mapsto> H\<lparr>size := size H + 1\<rparr>)" "nodes s6 = ns5"
    "listMap s6 = ?lm"
    by (simp_all add: s6_def s5_def)
  have B2: "?B1(c + 1 := a # ?B1 (c + 1)) = B(c := remove1 a (B c), c + 1 := a # B (c + 1))"
    by simp
  have shape6: "shape (listMap s6) (nodes s6) (lists s6) (fresh s6) (B(c := remove1 a (B c), c + 1 := a # B (c + 1)))"
    using sh5 unfolding f3 B2 .
  have rest: "nodeMap s6 = nodeMap s" "curSize s6 = curSize s" "maxSize s6 = maxSize s" "minf s6 = m2"
    using s3 by (simp_all add: s6_def s5_def s4_def s2_def same_cache_def)
  have da: "map_option data (nodes s6 a) = Some (key n, val n, c + 1)"
    using n5 n3(2) c by (simp add: s6_def data_def)
  have db: "map_option data (nodes s6 b) = map_option data (nodes s b)" if "b \<noteq> a" "nodes s b \<noteq> None" for b
  proof -
    have "nodes s2 b \<noteq> None" using d1[rule_format, of b] that by (auto simp: s2_def)
    with fr3 have "nodes s3 b = nodes s2 b" by blast
    then have "nodes s4 b = ns1 b" using that by (simp add: s4_def s2_def)
    with d5[rule_format, of b] d1[rule_format, of b] show ?thesis by (simp add: s6_def s5_def)
  qed
  from run shape6 rest da db show ?thesis unfolding m2_def by blast
qed

subsection \<open>The two halves of \<open>put\<close> on a well-formed heap\<close>

lemma remove1_last: "distinct xs \<Longrightarrow> xs \<noteq> [] \<Longrightarrow> remove1 (last xs) xs = butlast xs"
  by (induction xs) (auto simp: remove1_idem)

lemma put_evict_run:
  assumes "listMap s (minf s) = Some l" "lists s l = Some L" "nodes s (tail L) = Some tn"
    and "prev tn = Some e" "nodes s e = Some d"
    and "delNode l e (s\<lparr>nodeMap := (nodeMap s)(key d := None)\<rparr>) = Some s2"
  shows "put_evict s = Some (s2\<lparr>curSize := curSize s2 - 1\<rparr>)"
  unfolding put_evict_def using assms by (simp add: node_at_def)

lemma put_evict_shape:
  assumes sh: "shape (listMap s) (nodes s) (lists s) (fresh s) B"
    and ne: "B (minf s) \<noteq> []" and d: "nodes s (last (B (minf s))) = Some d"
  shows "\<exists>s'. put_evict s = Some s' \<and>
      shape (listMap s') (nodes s') (lists s') (fresh s') (B(minf s := butlast (B (minf s)))) \<and>
      nodeMap s' = (nodeMap s)(key d := None) \<and> curSize s' = curSize s - 1 \<and>
      maxSize s' = maxSize s \<and> minf s' = minf s \<and>
      (\<forall>b. map_option data (nodes s' b) = map_option data (nodes s b))"
proof -
  let ?f = "minf s"
  define e where "e = last (B ?f)"
  obtain l where l: "listMap s ?f = Some l"
    using shapeD2[OF sh, of ?f] ne by (cases "listMap s ?f") auto
  from shapeD1[OF sh l] obtain L where L: "lists s l = Some L" "chain (nodes s) L (B ?f)" by blast
  from chain_last[OF L(2)] ne obtain tn where tn: "nodes s (tail L) = Some tn" "prev tn = Some e"
    by (auto simp: e_def)
  have ein: "e \<in> set (B ?f)" using ne by (simp add: e_def)
  have "distinct (B ?f)" using L(2) by (simp add: chain_def cells_def)
  then have rm: "remove1 e (B ?f) = butlast (B ?f)" using ne by (simp add: e_def remove1_last)
  define s1 where "s1 = s\<lparr>nodeMap := (nodeMap s)(key d := None)\<rparr>"
  have sh1: "shape (listMap s) (nodes s1) (lists s1) (fresh s) B" using sh by (simp add: s1_def)
  from shape_del[OF sh1 l ein] obtain ns2 L' where
    del: "delNode l e s1 = Some (s1\<lparr>nodes := ns2, lists := (lists s1)(l \<mapsto> L'\<lparr>size := size L' - 1\<rparr>)\<rparr>)"
    and sh2: "shape (listMap s) ns2 ((lists s1)(l \<mapsto> L'\<lparr>size := size L' - 1\<rparr>)) (fresh s) (B(?f := remove1 e (B ?f)))"
    and d2: "\<forall>b. map_option data (ns2 b) = map_option data (nodes s1 b)"
    by blast
  from put_evict_run[OF l L(1) tn d[folded e_def] del[unfolded s1_def]] sh2 d2
  show ?thesis unfolding rm by (simp add: s1_def)
qed

lemma put_insert_run:
  assumes "new_Node k v (s\<lparr>minf := 1\<rparr>) = (a, s2)"
    and "(case listMap s2 1 of Some l \<Rightarrow> Some (l, s2) | None \<Rightarrow> new_List s2) = Some (l, s3)"
    and "minf s2 = 1"
    and "addNode l a s3 = Some s4"
  shows "put_insert k v s = Some (s4\<lparr>curSize := curSize s4 + 1, nodeMap := (nodeMap s4)(k \<mapsto> a),
              listMap := (listMap s4)(minf s4 \<mapsto> l)\<rparr>)"
  unfolding put_insert_def using assms by simp

lemma put_insert_shape:
  assumes sh: "shape (listMap s) (nodes s) (lists s) (fresh s) B"
  shows "\<exists>s'. put_insert k v s = Some s' \<and>
      shape (listMap s') (nodes s') (lists s') (fresh s') (B(1 := fresh s # B 1)) \<and>
      nodeMap s' = (nodeMap s)(k \<mapsto> fresh s) \<and> curSize s' = curSize s + 1 \<and>
      maxSize s' = maxSize s \<and> minf s' = 1 \<and>
      map_option data (nodes s' (fresh s)) = Some (k, v, 1) \<and>
      (\<forall>b. nodes s b \<noteq> None \<longrightarrow> map_option data (nodes s' b) = map_option data (nodes s b))"
proof -
  let ?a = "fresh s"
  let ?N = "\<lparr>key = k, val = v, count = 1, next = None, prev = None\<rparr>"
  define s2 where "s2 = s\<lparr>minf := 1, nodes := (nodes s)(?a \<mapsto> ?N), fresh := Suc ?a\<rparr>"
  have nn: "new_Node k v (s\<lparr>minf := 1\<rparr>) = (?a, s2)" by (simp add: new_Node_def s2_def)
  have sh2: "shape (listMap s2) (nodes s2) (lists s2) (fresh s2) B"
    using shape_alloc[OF sh, of ?N] by (simp add: s2_def)
  have lo2: "loose (listMap s2) (lists s2) B ?a"
    using loose_fresh[OF sh, of ?a] by (simp add: s2_def)
  have a2: "nodes s2 ?a \<noteq> None" by (simp add: s2_def)
  from shape_ensure[OF sh2 lo2 a2, of 1] obtain l s3 where
    ens: "(case listMap s2 1 of Some hl \<Rightarrow> Some (hl, s2) | None \<Rightarrow> new_List s2) = Some (l, s3)"
    and s3: "same_cache s2 s3"
    and sh3: "shape ((listMap s2)(1 \<mapsto> l)) (nodes s3) (lists s3) (fresh s3) B"
    and lo3: "loose ((listMap s2)(1 \<mapsto> l)) (lists s3) B ?a"
    and fr3: "\<forall>b. nodes s2 b \<noteq> None \<longrightarrow> nodes s3 b = nodes s2 b"
    by blast
  let ?lm = "(listMap s2)(1 \<mapsto> l)"
  have n3: "nodes s3 ?a = Some ?N" using fr3 by (simp add: s2_def)
  have lmh: "?lm 1 = Some l" by simp
  from shape_add[OF sh3 lmh n3 lo3[unfolded loose_def]]
  obtain ns4 H where H: "lists s3 l = Some H"
    and add: "addNode l ?a s3 = Some (s3\<lparr>nodes := ns4, lists := (lists s3)(l \<mapsto> H\<lparr>size := size H + 1\<rparr>)\<rparr>)"
    and sh4: "shape ?lm ns4 ((lists s3)(l \<mapsto> H\<lparr>size := size H + 1\<rparr>)) (fresh s3) (B(1 := ?a # B 1))"
    and d4: "\<forall>b. map_option data (ns4 b) = map_option data (nodes s3 b)"
    by blast
  define s4 where "s4 = s3\<lparr>nodes := ns4, lists := (lists s3)(l \<mapsto> H\<lparr>size := size H + 1\<rparr>)\<rparr>"
  define s5 where "s5 = s4\<lparr>curSize := curSize s4 + 1, nodeMap := (nodeMap s4)(k \<mapsto> ?a),
              listMap := (listMap s4)(minf s4 \<mapsto> l)\<rparr>"
  have m2: "minf s2 = 1" by (simp add: s2_def)
  have run: "put_insert k v s = Some s5"
    using put_insert_run[OF nn ens m2 add[folded s4_def]] by (simp add: s5_def)
  have f: "minf s4 = 1" "listMap s4 = listMap s2" "curSize s4 = curSize s" "nodeMap s4 = nodeMap s"
    "maxSize s4 = maxSize s"
    using s3 by (simp_all add: s4_def same_cache_def s2_def)
  have shape5: "shape (listMap s5) (nodes s5) (lists s5) (fresh s5) (B(1 := ?a # B 1))"
    using sh4 by (simp add: s5_def f) (simp add: s4_def)
  have da: "map_option data (nodes s5 ?a) = Some (k, v, 1)"
    using d4[rule_format, of ?a] n3 by (simp add: s5_def s4_def data_def)
  have db: "map_option data (nodes s5 b) = map_option data (nodes s b)" if "nodes s b \<noteq> None" for b
  proof -
    have "b \<noteq> ?a" using that shapeD5[OF sh, of ?a] by auto
    with that have "nodes s2 b = nodes s b" "nodes s2 b \<noteq> None" by (simp_all add: s2_def)
    with fr3 have "nodes s3 b = nodes s b" by simp
    with d4[rule_format, of b] show ?thesis by (simp add: s5_def s4_def)
  qed
  from run shape5 da db f show ?thesis by (simp add: s5_def)
qed

section \<open>The operations keep the invariant\<close>

subsection \<open>Key index and buckets\<close>

lemma entD1: "entries_ok s B \<Longrightarrow> a \<in> set (B f) \<Longrightarrow> \<exists>k v. dat s a = Some (k, v, f) \<and> nodeMap s k = Some a"
  by (simp add: entries_ok_def)

lemma entD2: "entries_ok s B \<Longrightarrow> nodeMap s k = Some a \<Longrightarrow> \<exists>v c. dat s a = Some (k, v, c) \<and> a \<in> set (B c)"
  by (simp add: entries_ok_def)

lemma entD4: "entries_ok s B \<Longrightarrow> B f \<noteq> [] \<Longrightarrow> 1 \<le> f"
  by (simp add: entries_ok_def)

lemma shape_distinct: "shape lm ns ls fr B \<Longrightarrow> distinct (B f)"
proof (cases "lm f")
  case None
  assume "shape lm ns ls fr B" with None show ?thesis by (simp add: shapeD2)
next
  case (Some l)
  assume "shape lm ns ls fr B"
  from shapeD1[OF this Some] show ?thesis by (auto simp: chain_def cells_def)
qed

lemma dat_Some: "dat s a = Some (k, v, c) \<longleftrightarrow> (\<exists>n. nodes s a = Some n \<and> key n = k \<and> val n = v \<and> count n = c)"
  by (auto simp: dat_def data_def)

lemma Inv0_promote:
  assumes inv: "Inv0 s B" and mo: "min_ok s B" and k: "nodeMap s k = Some a"
  shows "\<exists>s' v c. dat s a = Some (k, v, c) \<and> a \<in> set (B c) \<and> updateFreqList a s = Some s' \<and>
      Inv0 s' (B(c := remove1 a (B c), c + 1 := a # B (c + 1))) \<and>
      min_ok s' (B(c := remove1 a (B c), c + 1 := a # B (c + 1))) \<and>
      nodeMap s' = nodeMap s \<and> curSize s' = curSize s \<and> maxSize s' = maxSize s \<and>
      dat s' a = Some (k, v, c + 1) \<and>
      (\<forall>b. b \<noteq> a \<longrightarrow> nodes s b \<noteq> None \<longrightarrow> dat s' b = dat s b)"
proof -
  from inv have sh: "shape (listMap s) (nodes s) (lists s) (fresh s) B" and en: "entries_ok s B"
    by (simp_all add: Inv0_def)
  from entD2[OF en k] obtain v c where d: "dat s a = Some (k, v, c)" and a: "a \<in> set (B c)" by blast
  from d obtain n where n: "nodes s a = Some n" "key n = k" "val n = v" "c = count n"
    by (auto simp: dat_Some)
  let ?B' = "B(c := remove1 a (B c), c + 1 := a # B (c + 1))"
  from updateFreqList_shape[OF sh n(1) n(4) a] obtain s' where
    run: "updateFreqList a s = Some s'"
    and sh': "shape (listMap s') (nodes s') (lists s') (fresh s') ?B'"
    and same: "nodeMap s' = nodeMap s" "curSize s' = curSize s" "maxSize s' = maxSize s"
    and mf: "minf s' = (if c = minf s \<and> B c = [a] then minf s + 1 else minf s)"
    and da: "dat s' a = Some (k, v, c + 1)"
    and db: "\<forall>b. b \<noteq> a \<longrightarrow> nodes s b \<noteq> None \<longrightarrow> dat s' b = dat s b"
    unfolding dat_def n(2,3) by blast
  have dist: "distinct (B c)" using shape_distinct[OF sh] .
  have only: "f = c" if "a \<in> set (B f)" for f
    using entD1[OF en that] d by simp
  have c1: "1 \<le> c" using entD4[OF en, of c] a by (cases "B c") auto
  have e1: "\<exists>k' v'. dat s' b = Some (k', v', f) \<and> nodeMap s' k' = Some b" if b: "b \<in> set (?B' f)" for f b
  proof (cases "b = a")
    case True
    have "f = c + 1"
    proof (rule ccontr)
      assume "f \<noteq> c + 1"
      with b True have "a \<in> set (remove1 a (B c)) \<or> a \<in> set (B f) \<and> f \<noteq> c"
        by (auto split: if_splits)
      with dist only show False by auto
    qed
    with True da k same show ?thesis by simp
  next
    case False
    with b have bin: "b \<in> set (B f)" by (auto split: if_splits dest: notin_set_remove1)
    from entD1[OF en bin] obtain k' v' where "dat s b = Some (k', v', f)" "nodeMap s k' = Some b" by blast
    moreover from this have "nodes s b \<noteq> None" by (auto simp: dat_def)
    ultimately show ?thesis using db False same by auto
  qed
  have e2: "\<exists>v' c'. dat s' b = Some (k', v', c') \<and> b \<in> set (?B' c')" if "nodeMap s' k' = Some b" for k' b
  proof (cases "b = a")
    case True
    from that same have "nodeMap s k' = Some a" using True by simp
    from entD2[OF en this] d have "k' = k" by auto
    with True da show ?thesis by auto
  next
    case False
    from that same have "nodeMap s k' = Some b" by simp
    from entD2[OF en this] obtain v' c' where b: "dat s b = Some (k', v', c')" "b \<in> set (B c')" by blast
    then have "nodes s b \<noteq> None" by (auto simp: dat_def)
    with db False b(1) have "dat s' b = Some (k', v', c')" by simp
    moreover have "b \<in> set (?B' c')" using b(2) False by auto
    ultimately show ?thesis by blast
  qed
  have e4: "1 \<le> f" if "?B' f \<noteq> []" for f
  proof (cases "f = c + 1")
    case True with c1 show ?thesis by simp
  next
    case False
    with that have "B f \<noteq> []" by (auto split: if_splits)
    then show ?thesis using entD4[OF en] by simp
  qed
  have en': "entries_ok s' ?B'"
    unfolding entries_ok_def using e1 e2 e4 en same by (simp add: entries_ok_def)
  have mo': "min_ok s' ?B'"
    unfolding min_ok_def
  proof (intro impI)
    have ne: "dom (nodeMap s) \<noteq> {}" using k by auto
    with mo have m: "B (minf s) \<noteq> []" "\<And>f. f < minf s \<Longrightarrow> B f = []" by (auto simp: min_ok_def)
    have cm: "minf s \<le> c" using m(2)[of c] a by (cases "c < minf s") auto
    show "?B' (minf s') \<noteq> [] \<and> (\<forall>f. f < minf s' \<longrightarrow> ?B' f = [])"
    proof (cases "c = minf s \<and> B c = [a]")
      case True
      with mf have "minf s' = c + 1" by auto
      then show ?thesis using True m(2) by auto
    next
      case False
      with mf have ms: "minf s' = minf s" by auto
      have "remove1 a (B c) \<noteq> []" if "c = minf s"
        using False that a by (cases "B c") (auto split: if_splits)
      then show ?thesis using ms m cm by auto
    qed
  qed
  from d a run sh' en' mo' same da db show ?thesis unfolding Inv0_def by blast
qed

lemma Inv0_val:
  assumes inv: "Inv0 s B" and n: "nodes s a = Some n"
  shows "Inv0 (s\<lparr>nodes := (nodes s)(a \<mapsto> n\<lparr>val := v\<rparr>)\<rparr>) B"
proof -
  let ?s' = "s\<lparr>nodes := (nodes s)(a \<mapsto> n\<lparr>val := v\<rparr>)\<rparr>"
  from inv have sh: "shape (listMap s) (nodes s) (lists s) (fresh s) B" and en: "entries_ok s B"
    by (simp_all add: Inv0_def)
  have sh': "shape (listMap ?s') (nodes ?s') (lists ?s') (fresh ?s') B"
    using shape_data_upd[OF sh n, of "n\<lparr>val := v\<rparr>"] by simp
  have d: "dat ?s' b = (if b = a then Some (key n, v, count n) else dat s b)" for b
    by (simp add: dat_def data_def)
  have da: "dat s a = Some (key n, val n, count n)" using n by (simp add: dat_def data_def)
  have e1: "\<exists>k' v'. dat ?s' b = Some (k', v', f) \<and> nodeMap ?s' k' = Some b" if "b \<in> set (B f)" for f b
    using entD1[OF en that] da by (auto simp: d)
  have e2: "\<exists>v' c'. dat ?s' b = Some (k', v', c') \<and> b \<in> set (B c')" if "nodeMap ?s' k' = Some b" for k' b
    using entD2[OF en, of k' b] that da by (auto simp: d)
  have "entries_ok ?s' B"
    unfolding entries_ok_def using e1 e2 en by (simp add: entries_ok_def)
  with sh' show ?thesis by (simp add: Inv0_def)
qed

lemma Inv0_evict:
  assumes inv: "Inv0 s B" and mo: "min_ok s B" and ne: "dom (nodeMap s) \<noteq> {}"
  shows "\<exists>s' e k v. B (minf s) \<noteq> [] \<and> e = last (B (minf s)) \<and> dat s e = Some (k, v, minf s) \<and>
      nodeMap s k = Some e \<and> put_evict s = Some s' \<and>
      Inv0 s' (B(minf s := butlast (B (minf s)))) \<and>
      nodeMap s' = (nodeMap s)(k := None) \<and> curSize s' = curSize s - 1 \<and>
      maxSize s' = maxSize s \<and> (\<forall>b. dat s' b = dat s b)"
proof -
  from inv have sh: "shape (listMap s) (nodes s) (lists s) (fresh s) B" and en: "entries_ok s B"
    by (simp_all add: Inv0_def)
  let ?f = "minf s"
  define e where "e = last (B ?f)"
  let ?B' = "B(?f := butlast (B ?f))"
  from mo ne have bne: "B ?f \<noteq> []" by (simp add: min_ok_def)
  then have ein: "e \<in> set (B ?f)" by (simp add: e_def)
  from entD1[OF en ein] obtain k v where d: "dat s e = Some (k, v, ?f)" and k: "nodeMap s k = Some e"
    by blast
  from d obtain n where n: "nodes s e = Some n" "key n = k" by (auto simp: dat_Some)
  from put_evict_shape[OF sh bne n(1)[unfolded e_def]] obtain s' where
    run: "put_evict s = Some s'"
    and sh': "shape (listMap s') (nodes s') (lists s') (fresh s') ?B'"
    and same: "nodeMap s' = (nodeMap s)(k := None)" "curSize s' = curSize s - 1" "maxSize s' = maxSize s"
    and dd: "\<forall>b. dat s' b = dat s b"
    unfolding dat_def n(2) by blast
  have dist: "distinct (B ?f)" using shape_distinct[OF sh] .
  have only: "f = ?f" if "e \<in> set (B f)" for f
    using entD1[OF en that] d by simp
  have notlast: "e \<notin> set (butlast (B ?f))"
    using dist bne unfolding e_def by (metis append_butlast_last_id distinct_butlast not_distinct_conv_prefix)
  have sub: "b \<in> set (B f) \<and> b \<noteq> e" if "b \<in> set (?B' f)" for b f
    using that notlast only by (auto split: if_splits dest: in_set_butlastD)
  have sup: "b \<in> set (?B' f)" if "b \<in> set (B f)" "b \<noteq> e" for b f
  proof (cases "f = ?f")
    case True
    have "B ?f = butlast (B ?f) @ [e]" using bne by (simp add: e_def)
    then have "set (B ?f) = insert e (set (butlast (B ?f)))" by (metis list.simps(15) rotate1.simps(2) set_rotate1)
    with that True show ?thesis by auto
  qed (use that in simp)
  have e1: "\<exists>k' v'. dat s' b = Some (k', v', f) \<and> nodeMap s' k' = Some b" if b: "b \<in> set (?B' f)" for f b
  proof -
    from sub[OF b] have bin: "b \<in> set (B f)" "b \<noteq> e" by simp_all
    from entD1[OF en bin(1)] obtain k' v' where kv: "dat s b = Some (k', v', f)" "nodeMap s k' = Some b"
      by blast
    with k bin(2) have "k' \<noteq> k" by auto
    with kv dd same show ?thesis by auto
  qed
  have e2: "\<exists>v' c'. dat s' b = Some (k', v', c') \<and> b \<in> set (?B' c')" if "nodeMap s' k' = Some b" for k' b
  proof -
    from that same have kk: "k' \<noteq> k" "nodeMap s k' = Some b" by (auto split: if_splits)
    from entD2[OF en kk(2)] obtain v' c' where vc: "dat s b = Some (k', v', c')" "b \<in> set (B c')" by blast
    with d kk(1) have "b \<noteq> e" by auto
    from sup[OF vc(2) this] vc(1) dd show ?thesis by auto
  qed
  have e4: "1 \<le> f" if "?B' f \<noteq> []" for f
  proof -
    from that have "B f \<noteq> []" by (auto split: if_splits)
    then show ?thesis using entD4[OF en] by simp
  qed
  have fin: "finite (dom (nodeMap s))" and cs: "curSize s = int (card (dom (nodeMap s)))"
    using en by (simp_all add: entries_ok_def)
  have kin: "k \<in> dom (nodeMap s)" using k by auto
  have dom': "dom (nodeMap s') = dom (nodeMap s) - {k}" using same by auto
  have "card (dom (nodeMap s)) \<ge> 1" using kin fin by (metis One_nat_def Suc_leI card_gt_0_iff empty_iff)
  then have e3: "curSize s' = int (card (dom (nodeMap s')))"
    using same cs kin fin by (simp add: dom' card_Diff_singleton)
  have "entries_ok s' ?B'"
    unfolding entries_ok_def using e1 e2 e3 e4 fin dom' by simp
  with sh' have "Inv0 s' ?B'" by (simp add: Inv0_def)
  with bne d k run same dd show ?thesis unfolding e_def by blast
qed

lemma Inv0_insert:
  assumes inv: "Inv0 s B" and k: "nodeMap s k = None"
  shows "\<exists>s'. put_insert k v s = Some s' \<and> Inv0 s' (B(1 := fresh s # B 1)) \<and>
      min_ok s' (B(1 := fresh s # B 1)) \<and>
      nodeMap s' = (nodeMap s)(k \<mapsto> fresh s) \<and> curSize s' = curSize s + 1 \<and>
      maxSize s' = maxSize s \<and> dat s' (fresh s) = Some (k, v, 1) \<and>
      (\<forall>b. nodes s b \<noteq> None \<longrightarrow> dat s' b = dat s b)"
proof -
  from inv have sh: "shape (listMap s) (nodes s) (lists s) (fresh s) B" and en: "entries_ok s B"
    by (simp_all add: Inv0_def)
  let ?a = "fresh s"
  let ?B' = "B(1 := ?a # B 1)"
  from put_insert_shape[OF sh, of k v] obtain s' where
    run: "put_insert k v s = Some s'"
    and sh': "shape (listMap s') (nodes s') (lists s') (fresh s') ?B'"
    and same: "nodeMap s' = (nodeMap s)(k \<mapsto> ?a)" "curSize s' = curSize s + 1" "maxSize s' = maxSize s"
      "minf s' = 1"
    and da: "dat s' ?a = Some (k, v, 1)"
    and db: "\<forall>b. nodes s b \<noteq> None \<longrightarrow> dat s' b = dat s b"
    unfolding dat_def by blast
  have afresh: "nodes s ?a = None" using shapeD5[OF sh, of ?a] by simp
  have e1: "\<exists>k' v'. dat s' b = Some (k', v', f) \<and> nodeMap s' k' = Some b" if b: "b \<in> set (?B' f)" for f b
  proof (cases "b \<in> set (B f)")
    case True
    from entD1[OF en True] obtain k' v' where kv: "dat s b = Some (k', v', f)" "nodeMap s k' = Some b"
      by blast
    then have "nodes s b \<noteq> None" "k' \<noteq> k" using k by (auto simp: dat_def)
    with kv db same show ?thesis by auto
  next
    case False
    with b have "b = ?a" "f = 1" by (auto split: if_splits)
    with da same show ?thesis by simp
  qed
  have e2: "\<exists>v' c'. dat s' b = Some (k', v', c') \<and> b \<in> set (?B' c')" if "nodeMap s' k' = Some b" for k' b
  proof (cases "k' = k")
    case True
    with that same have "b = ?a" by simp
    with True da show ?thesis by auto
  next
    case False
    with that same have "nodeMap s k' = Some b" by simp
    from entD2[OF en this] obtain v' c' where vc: "dat s b = Some (k', v', c')" "b \<in> set (B c')" by blast
    then have "nodes s b \<noteq> None" by (auto simp: dat_def)
    with vc db show ?thesis by auto
  qed
  have e4: "1 \<le> f" if "?B' f \<noteq> []" for f
    using that entD4[OF en, of f] by (cases "f = 1") auto
  have fin: "finite (dom (nodeMap s))" and cs: "curSize s = int (card (dom (nodeMap s)))"
    using en by (simp_all add: entries_ok_def)
  have kn: "k \<notin> dom (nodeMap s)" using k by auto
  have e3: "curSize s' = int (card (dom (nodeMap s')))" "finite (dom (nodeMap s'))"
    using same cs kn fin by simp_all
  have "entries_ok s' ?B'"
    unfolding entries_ok_def using e1 e2 e3 e4 by simp
  with sh' have i: "Inv0 s' ?B'" by (simp add: Inv0_def)
  have "B f = []" if "f < 1" for f
    using entD4[OF en, of f] that by (cases "B f") auto
  then have "min_ok s' ?B'" by (simp add: min_ok_def same)
  with i run same da db show ?thesis by blast
qed

subsection \<open>Recency order\<close>

lemma akey_dat: "dat s a = Some (k, v, c) \<Longrightarrow> akey s a = k"
  by (auto simp: dat_def akey_def data_def)

lemma akey_eq: "dat s' a = dat s a \<Longrightarrow> dat s a \<noteq> None \<Longrightarrow> akey s' a = akey s a"
  by (auto simp: dat_def akey_def data_def split: option.splits)

lemma recent_step:
  assumes en: "entries_ok s B" and re: "recent lt s B"
    and bd: "\<forall>k a. nodeMap s k = Some a \<longrightarrow> lt k \<le> T"
    and keys: "\<forall>f b. b \<in> set (B f) \<longrightarrow> akey s' b = akey s b"
    and B': "\<forall>f. \<exists>X Q. B' f = X @ filter Q (B f) \<and> (\<forall>b\<in>set (B f). Q b \<longrightarrow> akey s b \<noteq> k)
               \<and> (\<forall>x\<in>set X. akey s' x = k) \<and> length X \<le> 1"
  shows "recent (lt(k := Suc T)) s' B'"
  unfolding recent_def
proof
  fix f
  let ?lt' = "lt(k := Suc T)"
  let ?R = "\<lambda>a b. lt (akey s b) < lt (akey s a)" and ?R' = "\<lambda>a b. ?lt' (akey s' b) < ?lt' (akey s' a)"
  from B' obtain X Q where X: "B' f = X @ filter Q (B f)" "\<forall>b\<in>set (B f). Q b \<longrightarrow> akey s b \<noteq> k"
    "\<forall>x\<in>set X. akey s' x = k" "length X \<le> 1" by blast
  have old: "?lt' (akey s' b) = lt (akey s b) \<and> lt (akey s b) \<le> T" if "b \<in> set (filter Q (B f))" for b
  proof -
    from that have b: "b \<in> set (B f)" "Q b" by simp_all
    from entD1[OF en b(1)] obtain k' v' where "dat s b = Some (k', v', f)" "nodeMap s k' = Some b" by blast
    then have "akey s b = k'" "lt k' \<le> T" using bd by (auto simp: akey_dat)
    with X(2) b keys show ?thesis by auto
  qed
  have "sorted_wrt ?R (filter Q (B f))" using re by (simp add: recent_def sorted_wrt_filter)
  then have 1: "sorted_wrt ?R' (filter Q (B f))"
    by (rule sorted_wrt_mono_rel[rotated]) (use old in auto)
  have 2: "sorted_wrt ?R' X" using X(4) by (cases X) auto
  have 3: "\<forall>x\<in>set X. \<forall>y\<in>set (filter Q (B f)). ?R' x y"
    using X(3) old by (auto simp: less_Suc_eq_le)
  show "sorted_wrt ?R' (B' f)" unfolding X(1) sorted_wrt_append using 1 2 3 by blast
qed

lemma Inv_get_miss:
  assumes "Inv T lt s B" "nodeMap s k = None"
  shows "Inv (Suc T) (lt(k := Suc T)) s B"
proof -
  from assms(1) have en: "entries_ok s B" and re: "recent lt s B"
    and bd: "\<forall>k a. nodeMap s k = Some a \<longrightarrow> lt k \<le> T" by (simp_all add: Inv_def Inv0_def)
  have "recent (lt(k := Suc T)) s B"
  proof (rule recent_step[OF en re bd])
    show "\<forall>f. \<exists>X Q. B f = X @ filter Q (B f) \<and> (\<forall>b\<in>set (B f). Q b \<longrightarrow> akey s b \<noteq> k)
               \<and> (\<forall>x\<in>set X. akey s x = k) \<and> length X \<le> 1"
    proof
      fix f
      have "\<forall>b\<in>set (B f). akey s b \<noteq> k"
        using entD1[OF en] assms(2) by (fastforce simp: akey_dat)
      then show "\<exists>X Q. B f = X @ filter Q (B f) \<and> (\<forall>b\<in>set (B f). Q b \<longrightarrow> akey s b \<noteq> k)
               \<and> (\<forall>x\<in>set X. akey s x = k) \<and> length X \<le> 1"
        by (intro exI[of _ "[]"] exI[of _ "\<lambda>_. True"]) simp
    qed
  qed simp
  moreover have "\<forall>k' a. nodeMap s k' = Some a \<longrightarrow> (lt(k := Suc T)) k' \<le> Suc T"
    using bd by (auto simp: le_Suc_eq)
  ultimately show ?thesis using assms(1) by (simp add: Inv_def)
qed

lemma Inv_promote:
  assumes inv: "Inv T lt s B" and k: "nodeMap s k = Some a"
  shows "\<exists>s' v c B'. dat s a = Some (k, v, c) \<and> updateFreqList a s = Some s' \<and>
      Inv (Suc T) (lt(k := Suc T)) s' B' \<and>
      nodeMap s' = nodeMap s \<and> curSize s' = curSize s \<and> maxSize s' = maxSize s \<and>
      dat s' a = Some (k, v, c + 1) \<and>
      (\<forall>b. b \<noteq> a \<longrightarrow> nodes s b \<noteq> None \<longrightarrow> dat s' b = dat s b)"
proof -
  from inv have i0: "Inv0 s B" and mo: "min_ok s B" and en: "entries_ok s B" and re: "recent lt s B"
    and bd: "\<forall>k a. nodeMap s k = Some a \<longrightarrow> lt k \<le> T"
    and cap: "0 \<le> maxSize s \<longrightarrow> curSize s \<le> maxSize s" by (simp_all add: Inv_def Inv0_def)
  from i0 have sh: "shape (listMap s) (nodes s) (lists s) (fresh s) B" by (simp add: Inv0_def)
  from Inv0_promote[OF i0 mo k] obtain s' v c where
    d: "dat s a = Some (k, v, c)" and a: "a \<in> set (B c)" and run: "updateFreqList a s = Some s'"
    and i0': "Inv0 s' (B(c := remove1 a (B c), c + 1 := a # B (c + 1)))"
    and mo': "min_ok s' (B(c := remove1 a (B c), c + 1 := a # B (c + 1)))"
    and same: "nodeMap s' = nodeMap s" "curSize s' = curSize s" "maxSize s' = maxSize s"
    and da: "dat s' a = Some (k, v, c + 1)"
    and db: "\<forall>b. b \<noteq> a \<longrightarrow> nodes s b \<noteq> None \<longrightarrow> dat s' b = dat s b" by blast
  let ?B' = "B(c := remove1 a (B c), c + 1 := a # B (c + 1))"
  have uniq: "b = a" if "b \<in> set (B f)" "akey s b = k" for b f
    using entD1[OF en that(1)] that(2) k by (auto simp: akey_dat)
  have ak: "akey s a = k" "akey s' a = k" using d da by (simp_all add: akey_dat)
  have only: "f = c" if "a \<in> set (B f)" for f
    using entD1[OF en that] d by simp
  have dist: "distinct (B c)" using shape_distinct[OF sh] .
  have "recent (lt(k := Suc T)) s' ?B'"
  proof (rule recent_step[OF en re bd])
    show "\<forall>f b. b \<in> set (B f) \<longrightarrow> akey s' b = akey s b"
    proof (intro allI impI)
      fix f b assume b: "b \<in> set (B f)"
      from entD1[OF en b] have "dat s b \<noteq> None" by auto
      then have "nodes s b \<noteq> None" by (auto simp: dat_def)
      with db akey_eq[of s' b s] \<open>dat s b \<noteq> None\<close> ak show "akey s' b = akey s b" by (cases "b = a") auto
    qed
    show "\<forall>f. \<exists>X Q. ?B' f = X @ filter Q (B f) \<and> (\<forall>b\<in>set (B f). Q b \<longrightarrow> akey s b \<noteq> k)
               \<and> (\<forall>x\<in>set X. akey s' x = k) \<and> length X \<le> 1"
    proof
      fix f
      have flt: "filter (\<lambda>b. b \<noteq> a) (B g) = (if g = c then remove1 a (B c) else B g)" for g
      proof (cases "g = c")
        case True
        then show ?thesis using dist by (simp add: distinct_remove1_removeAll removeAll_filter_not_eq) (metis (mono_tags, lifting) filter_cong)
      next
        case False
        with only have "a \<notin> set (B g)" by auto
        then show ?thesis using False by (auto simp: filter_id_conv)
      qed
      have Q: "\<forall>b\<in>set (B f). b \<noteq> a \<longrightarrow> akey s b \<noteq> k" using uniq by blast
      show "\<exists>X Q. ?B' f = X @ filter Q (B f) \<and> (\<forall>b\<in>set (B f). Q b \<longrightarrow> akey s b \<noteq> k)
               \<and> (\<forall>x\<in>set X. akey s' x = k) \<and> length X \<le> 1"
      proof (cases "f = c + 1")
        case True
        then have "?B' f = [a] @ filter (\<lambda>b. b \<noteq> a) (B f)" using flt[of f] by simp
        with Q ak show ?thesis by (intro exI[of _ "[a]"] exI[of _ "\<lambda>b. b \<noteq> a"]) simp
      next
        case False
        then have "?B' f = [] @ filter (\<lambda>b. b \<noteq> a) (B f)" using flt[of f] by simp
        with Q show ?thesis by (intro exI[of _ "[]"] exI[of _ "\<lambda>b. b \<noteq> a"]) simp
      qed
    qed
  qed
  moreover have "\<forall>k' a. nodeMap s' k' = Some a \<longrightarrow> (lt(k := Suc T)) k' \<le> Suc T"
    using bd same by (auto simp: le_Suc_eq)
  ultimately have "Inv (Suc T) (lt(k := Suc T)) s' ?B'"
    using i0' mo' cap same by (simp add: Inv_def)
  with d run same da db show ?thesis by blast
qed

subsection \<open>Entries, eviction and insertion\<close>

lemma entry_dat: "nodeMap s k = Some a \<Longrightarrow> dat s a = Some (k', v, c) \<Longrightarrow> entry s k = Some (v, c)"
  by (auto simp: entry_def dat_def data_def)

lemma entry_None: "nodeMap s k = None \<Longrightarrow> entry s k = None"
  by (simp add: entry_def)

lemma akey_via_dat: "akey s a = (case dat s a of None \<Rightarrow> 0 | Some (k, v, c) \<Rightarrow> k)"
  by (simp add: akey_def dat_def data_def split: option.splits)

lemma entry_via_dat:
  "entry s k = (case nodeMap s k of None \<Rightarrow> None
                | Some a \<Rightarrow> map_option (\<lambda>(k, v, c). (v, c)) (dat s a))"
  by (simp add: entry_def dat_def data_def option.map_comp comp_def split: option.splits)

lemma entry_same:
  assumes "nodeMap s' k = nodeMap s k" "\<And>a. nodeMap s k = Some a \<Longrightarrow> dat s' a = dat s a"
  shows "entry s' k = entry s k"
  using assms by (cases "nodeMap s k") (simp_all add: entry_via_dat)

lemma Inv_entry_dom:
  assumes "Inv T lt s B"
  shows "dom (entry s) = dom (nodeMap s)"
proof -
  from assms have en: "entries_ok s B" by (simp add: Inv_def Inv0_def)
  have "entry s k \<noteq> None" if "nodeMap s k = Some a" for k a
    using entD2[OF en that] entry_dat[OF that] by fastforce
  then show ?thesis by (auto simp: entry_def split: option.splits)
qed

lemma evict_target:
  assumes inv: "Inv T lt s B" and ne: "dom (nodeMap s) \<noteq> {}"
  shows "\<exists>e ea v l L t. B (minf s) \<noteq> [] \<and> ea = last (B (minf s)) \<and>
      nodeMap s e = Some ea \<and> dat s ea = Some (e, v, minf s) \<and>
      listMap s (minf s) = Some l \<and> lists s l = Some L \<and> 1 \<le> size L \<and>
      nodes s (tail L) = Some t \<and> prev t = Some ea \<and>
      (\<forall>f l' L'. listMap s f = Some l' \<longrightarrow> lists s l' = Some L' \<longrightarrow> ea \<noteq> head L' \<and> ea \<noteq> tail L') \<and>
      (\<forall>k' a' v' c'. nodeMap s k' = Some a' \<longrightarrow> dat s a' = Some (k', v', c') \<longrightarrow>
          minf s \<le> c' \<and> (c' = minf s \<longrightarrow> k' \<noteq> e \<longrightarrow> lt e < lt k'))"
proof -
  from inv have i0: "Inv0 s B" and mo: "min_ok s B" and en: "entries_ok s B" and re: "recent lt s B"
    by (simp_all add: Inv_def Inv0_def)
  from i0 have sh: "shape (listMap s) (nodes s) (lists s) (fresh s) B" by (simp add: Inv0_def)
  let ?f = "minf s"
  define ea where "ea = last (B ?f)"
  from mo ne have bne: "B ?f \<noteq> []" and below: "\<And>f. f < ?f \<Longrightarrow> B f = []" by (simp_all add: min_ok_def)
  then have ein: "ea \<in> set (B ?f)" by (simp add: ea_def)
  from entD1[OF en ein] obtain e v where d: "dat s ea = Some (e, v, ?f)" and k: "nodeMap s e = Some ea"
    by blast
  obtain l where l: "listMap s ?f = Some l"
    using shapeD2[OF sh, of ?f] bne by (cases "listMap s ?f") auto
  from shapeD1[OF sh l] obtain L where L: "lists s l = Some L" "chain (nodes s) L (B ?f)"
    "size L = int (length (B ?f))" by blast
  have sz: "1 \<le> size L" using L(3) bne by (cases "B ?f") auto
  from chain_last[OF L(2)] bne obtain t where t: "nodes s (tail L) = Some t" "prev t = Some ea"
    by (auto simp: ea_def)
  have bf: "bucket (listMap s) (lists s) ?f = Some L" using l L by (simp add: bucket_def)
  have ec: "ea \<in> set (cells L (B ?f))" using ein by (simp add: cells_def)
  have ns: "ea \<noteq> head L' \<and> ea \<noteq> tail L'" if "listMap s f = Some l'" "lists s l' = Some L'" for f l' L'
  proof (cases "f = ?f")
    case True
    with that l L have "L' = L" by simp
    moreover have "distinct (cells L (B ?f))" using L(2) by (simp add: chain_def)
    ultimately show ?thesis using ein by (auto simp: cells_def)
  next
    case False
    have "bucket (listMap s) (lists s) f = Some L'" using that by (simp add: bucket_def)
    from shapeD4[OF sh _ bf this ec] False show ?thesis by (auto simp: cells_def)
  qed
  have lfu: "?f \<le> c' \<and> (c' = ?f \<longrightarrow> k' \<noteq> e \<longrightarrow> lt e < lt k')"
    if k': "nodeMap s k' = Some a'" and d': "dat s a' = Some (k', v', c')" for k' a' v' c'
  proof
    from entD2[OF en k'] d' have a': "a' \<in> set (B c')" by auto
    then show "?f \<le> c'" using below[of c'] by (cases "c' < ?f") auto
    show "c' = ?f \<longrightarrow> k' \<noteq> e \<longrightarrow> lt e < lt k'"
    proof (intro impI)
      assume c': "c' = ?f" and kk: "k' \<noteq> e"
      have "a' \<noteq> ea" using kk d d' by auto
      have split: "B ?f = butlast (B ?f) @ [ea]" using bne by (simp add: ea_def)
      with a' c' \<open>a' \<noteq> ea\<close> have "a' \<in> set (butlast (B ?f))"
        by (metis Un_iff empty_iff empty_set set_ConsD set_append)
      moreover have "sorted_wrt (\<lambda>a b. lt (akey s b) < lt (akey s a)) (butlast (B ?f) @ [ea])"
        using re split by (simp add: recent_def)
      ultimately have "lt (akey s ea) < lt (akey s a')" by (auto simp: sorted_wrt_append)
      then show "lt e < lt k'" using d d' by (simp add: akey_dat)
    qed
  qed
  from bne k d l L(1) sz t ns lfu show ?thesis unfolding ea_def by blast
qed

lemma evict_step:
  assumes inv: "Inv T lt s B" and ne: "dom (nodeMap s) \<noteq> {}"
  shows "\<exists>s1 B1 e. put_evict s = Some s1 \<and> nodeMap s e = Some (last (B (minf s))) \<and>
      Inv0 s1 B1 \<and> recent lt s1 B1 \<and> (\<forall>k a. nodeMap s1 k = Some a \<longrightarrow> lt k \<le> T) \<and>
      nodeMap s1 = (nodeMap s)(e := None) \<and> curSize s1 = curSize s - 1 \<and>
      maxSize s1 = maxSize s \<and> (\<forall>b. dat s1 b = dat s b)"
proof -
  from inv have i0: "Inv0 s B" and mo: "min_ok s B" and en: "entries_ok s B" and re: "recent lt s B"
    and bd: "\<forall>k a. nodeMap s k = Some a \<longrightarrow> lt k \<le> T"
    by (simp_all add: Inv_def Inv0_def)
  from i0 have sh: "shape (listMap s) (nodes s) (lists s) (fresh s) B" by (simp add: Inv0_def)
  let ?f = "minf s"
  let ?B1 = "B(?f := butlast (B ?f))"
  from Inv0_evict[OF i0 mo ne] obtain s1 e v where
    bne: "B ?f \<noteq> []" and d: "dat s (last (B ?f)) = Some (e, v, ?f)"
    and k: "nodeMap s e = Some (last (B ?f))" and run: "put_evict s = Some s1"
    and i1: "Inv0 s1 ?B1"
    and same: "nodeMap s1 = (nodeMap s)(e := None)" "curSize s1 = curSize s - 1" "maxSize s1 = maxSize s"
    and dd: "\<forall>b. dat s1 b = dat s b" by blast
  have ak: "akey s1 b = akey s b" for b using dd by (simp add: akey_via_dat)
  have "sorted_wrt (\<lambda>a b. lt (akey s b) < lt (akey s a)) (?B1 f)" for f
  proof (cases "f = ?f")
    case True
    have "sorted_wrt (\<lambda>a b. lt (akey s b) < lt (akey s a)) (butlast (B ?f) @ [last (B ?f)])"
      using re bne by (simp add: recent_def)
    then show ?thesis using True by (simp add: sorted_wrt_append)
  next
    case False
    then show ?thesis using re by (simp add: recent_def)
  qed
  then have re1: "recent lt s1 ?B1" by (simp add: recent_def ak)
  have bd1: "\<forall>k a. nodeMap s1 k = Some a \<longrightarrow> lt k \<le> T" using bd same by (auto split: if_splits)
  from run k i1 re1 bd1 same dd show ?thesis by blast
qed

lemma insert_step:
  assumes i0: "Inv0 s B" and re: "recent lt s B"
    and bd: "\<forall>k a. nodeMap s k = Some a \<longrightarrow> lt k \<le> T" and k: "nodeMap s k = None"
  shows "\<exists>s' B'. put_insert k v s = Some s' \<and> Inv0 s' B' \<and> min_ok s' B' \<and>
      recent (lt(k := Suc T)) s' B' \<and> (\<forall>k' a. nodeMap s' k' = Some a \<longrightarrow> (lt(k := Suc T)) k' \<le> Suc T) \<and>
      nodeMap s' = (nodeMap s)(k \<mapsto> fresh s) \<and> curSize s' = curSize s + 1 \<and>
      maxSize s' = maxSize s \<and> dat s' (fresh s) = Some (k, v, 1) \<and>
      (\<forall>b. nodes s b \<noteq> None \<longrightarrow> dat s' b = dat s b)"
proof -
  from i0 have sh: "shape (listMap s) (nodes s) (lists s) (fresh s) B" and en: "entries_ok s B"
    by (simp_all add: Inv0_def)
  let ?a = "fresh s"
  let ?B' = "B(1 := ?a # B 1)"
  from Inv0_insert[OF i0 k, of v] obtain s' where
    run: "put_insert k v s = Some s'" and i0': "Inv0 s' ?B'" and mo': "min_ok s' ?B'"
    and same: "nodeMap s' = (nodeMap s)(k \<mapsto> ?a)" "curSize s' = curSize s + 1" "maxSize s' = maxSize s"
    and da: "dat s' ?a = Some (k, v, 1)"
    and db: "\<forall>b. nodes s b \<noteq> None \<longrightarrow> dat s' b = dat s b" by blast
  have "recent (lt(k := Suc T)) s' ?B'"
  proof (rule recent_step[OF en re bd])
    show "\<forall>f b. b \<in> set (B f) \<longrightarrow> akey s' b = akey s b"
    proof (intro allI impI)
      fix f b assume b: "b \<in> set (B f)"
      from entD1[OF en b] have "dat s b \<noteq> None" by auto
      moreover from this have "nodes s b \<noteq> None" by (auto simp: dat_def)
      ultimately show "akey s' b = akey s b" using db akey_eq[of s' b s] by auto
    qed
    show "\<forall>f. \<exists>X Q. ?B' f = X @ filter Q (B f) \<and> (\<forall>b\<in>set (B f). Q b \<longrightarrow> akey s b \<noteq> k)
               \<and> (\<forall>x\<in>set X. akey s' x = k) \<and> length X \<le> 1"
    proof
      fix f
      have Q: "\<forall>b\<in>set (B f). akey s b \<noteq> k"
        using entD1[OF en] k by (fastforce simp: akey_dat)
      show "\<exists>X Q. ?B' f = X @ filter Q (B f) \<and> (\<forall>b\<in>set (B f). Q b \<longrightarrow> akey s b \<noteq> k)
               \<and> (\<forall>x\<in>set X. akey s' x = k) \<and> length X \<le> 1"
      proof (cases "f = 1")
        case True
        then have "?B' f = [?a] @ filter (\<lambda>_. True) (B f)" by simp
        with Q da show ?thesis
          by (intro exI[of _ "[?a]"] exI[of _ "\<lambda>_. True"]) (simp add: akey_dat)
      next
        case False
        then have "?B' f = [] @ filter (\<lambda>_. True) (B f)" by simp
        with Q show ?thesis by (intro exI[of _ "[]"] exI[of _ "\<lambda>_. True"]) simp
      qed
    qed
  qed
  moreover have "\<forall>k' a. nodeMap s' k' = Some a \<longrightarrow> (lt(k := Suc T)) k' \<le> Suc T"
    using bd same by (auto simp: le_Suc_eq)
  ultimately show ?thesis using run i0' mo' same da db by blast
qed

subsection \<open>\<open>get\<close> and \<open>put\<close>, case by case\<close>

lemma promote_entry:
  assumes inv: "Inv T lt s B" and k: "nodeMap s k = Some a"
  shows "\<exists>s' n B'. nodes s a = Some n \<and> entry s k = Some (val n, count n) \<and>
      updateFreqList a s = Some s' \<and> Inv (Suc T) (lt(k := Suc T)) s' B' \<and>
      nodeMap s' = nodeMap s \<and> curSize s' = curSize s \<and> maxSize s' = maxSize s \<and>
      entry s' = (entry s)(k \<mapsto> (val n, count n + 1))"
proof -
  from inv have en: "entries_ok s B" by (simp add: Inv_def Inv0_def)
  from Inv_promote[OF inv k] obtain s' v c B' where
    d: "dat s a = Some (k, v, c)" and run: "updateFreqList a s = Some s'"
    and inv': "Inv (Suc T) (lt(k := Suc T)) s' B'"
    and same: "nodeMap s' = nodeMap s" "curSize s' = curSize s" "maxSize s' = maxSize s"
    and da: "dat s' a = Some (k, v, c + 1)"
    and db: "\<forall>b. b \<noteq> a \<longrightarrow> nodes s b \<noteq> None \<longrightarrow> dat s' b = dat s b" by blast
  from d obtain n where n: "nodes s a = Some n" "val n = v" "count n = c" by (auto simp: dat_Some)
  have "entry s' k' = ((entry s)(k \<mapsto> (v, c + 1))) k'" for k'
  proof (cases "k' = k")
    case True
    then show ?thesis using entry_dat[OF _ da, of k] k same by simp
  next
    case False
    have "entry s' k' = entry s k'"
    proof (rule entry_same)
      show "nodeMap s' k' = nodeMap s k'" using same by simp
      fix b assume b: "nodeMap s k' = Some b"
      from entD2[OF en b] d False have "b \<noteq> a" "nodes s b \<noteq> None" by (auto simp: dat_def)
      with db show "dat s' b = dat s b" by simp
    qed
    with False show ?thesis by simp
  qed
  then have "entry s' = (entry s)(k \<mapsto> (v, c + 1))" by (rule ext)
  with n entry_dat[OF k d] run inv' same show ?thesis by blast
qed

lemma get_miss: "nodeMap s k = None \<Longrightarrow> get k s = Some (- 1, s)"
  by (simp add: get_def)

lemma get_hit:
  assumes inv: "Inv T lt s B" and k: "nodeMap s k = Some a"
  shows "\<exists>s' v c B'. entry s k = Some (v, c) \<and> get k s = Some (v, s') \<and>
      Inv (Suc T) (lt(k := Suc T)) s' B' \<and>
      nodeMap s' = nodeMap s \<and> curSize s' = curSize s \<and> maxSize s' = maxSize s \<and>
      entry s' = (entry s)(k \<mapsto> (v, c + 1))"
proof -
  from promote_entry[OF inv k] obtain s' n B' where
    n: "nodes s a = Some n" and e: "entry s k = Some (val n, count n)"
    and run: "updateFreqList a s = Some s'" and rest: "Inv (Suc T) (lt(k := Suc T)) s' B'"
      "nodeMap s' = nodeMap s" "curSize s' = curSize s" "maxSize s' = maxSize s"
      "entry s' = (entry s)(k \<mapsto> (val n, count n + 1))" by blast
  have "get k s = Some (val n, s')" using k n run by (simp add: get_def)
  with e rest show ?thesis by blast
qed

lemma Inv_val:
  assumes inv: "Inv T lt s B" and n: "nodes s a = Some n"
  shows "Inv T lt (s\<lparr>nodes := (nodes s)(a \<mapsto> n\<lparr>val := v\<rparr>)\<rparr>) B"
proof -
  let ?s' = "s\<lparr>nodes := (nodes s)(a \<mapsto> n\<lparr>val := v\<rparr>)\<rparr>"
  have "akey ?s' b = akey s b" for b using n by (simp add: akey_def)
  then have "recent lt ?s' B = recent lt s B" by (simp add: recent_def)
  moreover have "min_ok ?s' B = min_ok s B" by (simp add: min_ok_def)
  ultimately show ?thesis using inv Inv0_val[OF _ n, of B v] by (simp add: Inv_def)
qed

lemma put_zero: "maxSize s = 0 \<Longrightarrow> put k v s = Some s"
  by (simp add: put_def)

lemma put_hit:
  assumes inv: "Inv T lt s B" and k: "nodeMap s k = Some a" and cap: "maxSize s \<noteq> 0"
  shows "\<exists>s' v0 c B'. entry s k = Some (v0, c) \<and> put k v s = Some s' \<and>
      Inv (Suc T) (lt(k := Suc T)) s' B' \<and>
      nodeMap s' = nodeMap s \<and> curSize s' = curSize s \<and> maxSize s' = maxSize s \<and>
      entry s' = (entry s)(k \<mapsto> (v, c + 1))"
proof -
  from inv have en: "entries_ok s B" by (simp add: Inv_def Inv0_def)
  from entD2[OF en k] obtain v0 c where d: "dat s a = Some (k, v0, c)" by blast
  then obtain n where n: "nodes s a = Some n" "val n = v0" "count n = c" by (auto simp: dat_Some)
  define s1 where "s1 = s\<lparr>nodes := (nodes s)(a \<mapsto> n\<lparr>val := v\<rparr>)\<rparr>"
  have up: "upd_node (Some a) (\<lambda>n. n\<lparr>val := v\<rparr>) s = Some s1"
    using n by (simp add: upd_node_Some s1_def)
  have inv1: "Inv T lt s1 B" using Inv_val[OF inv n(1)] by (simp add: s1_def)
  have k1: "nodeMap s1 k = Some a" using k by (simp add: s1_def)
  from promote_entry[OF inv1 k1] obtain s' n1 B' where
    n1: "nodes s1 a = Some n1"
    and run: "updateFreqList a s1 = Some s'" and inv': "Inv (Suc T) (lt(k := Suc T)) s' B'"
    and same: "nodeMap s' = nodeMap s1" "curSize s' = curSize s1" "maxSize s' = maxSize s1"
    and e': "entry s' = (entry s1)(k \<mapsto> (val n1, count n1 + 1))" by blast
  have "n1 = n\<lparr>val := v\<rparr>" using n1 by (simp add: s1_def)
  then have n1v: "val n1 = v" "count n1 = c" using n by simp_all
  have "entry s1 k' = entry s k'" if "k' \<noteq> k" for k'
  proof (rule entry_same)
    show "nodeMap s1 k' = nodeMap s k'" by (simp add: s1_def)
    fix b assume b: "nodeMap s k' = Some b"
    from entD2[OF en b] d that have "b \<noteq> a" by auto
    then show "dat s1 b = dat s b" by (simp add: dat_def s1_def)
  qed
  then have "(entry s1)(k \<mapsto> (v, c + 1)) = (entry s)(k \<mapsto> (v, c + 1))" by auto
  with e' n1v have e: "entry s' = (entry s)(k \<mapsto> (v, c + 1))" by simp
  have "put k v s = Some s'" using cap k up run by (simp add: put_def)
  with entry_dat[OF k d] inv' same e show ?thesis by (auto simp: s1_def)
qed

lemma insert_entry:
  assumes en: "entries_ok s B" and k: "nodeMap s k = None"
    and nm: "nodeMap s' = (nodeMap s)(k \<mapsto> fresh s)" and da: "dat s' (fresh s) = Some (k, v, 1)"
    and db: "\<forall>b. nodes s b \<noteq> None \<longrightarrow> dat s' b = dat s b"
  shows "entry s' = (entry s)(k \<mapsto> (v, 1))"
proof
  fix k'
  show "entry s' k' = ((entry s)(k \<mapsto> (v, 1))) k'"
  proof (cases "k' = k")
    case True
    then show ?thesis using entry_dat[OF _ da, of k] nm by simp
  next
    case False
    have "entry s' k' = entry s k'"
    proof (rule entry_same)
      show "nodeMap s' k' = nodeMap s k'" using nm False by simp
      fix b assume b: "nodeMap s k' = Some b"
      from entD2[OF en b] have "nodes s b \<noteq> None" by (auto simp: dat_def)
      with db show "dat s' b = dat s b" by simp
    qed
    with False show ?thesis by simp
  qed
qed

lemma put_new_room:
  assumes inv: "Inv T lt s B" and k: "nodeMap s k = None" and cap: "maxSize s \<noteq> 0"
    and room: "curSize s \<noteq> maxSize s"
  shows "\<exists>s' B'. put k v s = Some s' \<and> put_insert k v s = Some s' \<and>
      Inv (Suc T) (lt(k := Suc T)) s' B' \<and>
      dom (nodeMap s') = insert k (dom (nodeMap s)) \<and> curSize s' = curSize s + 1 \<and>
      maxSize s' = maxSize s \<and> entry s' = (entry s)(k \<mapsto> (v, 1))"
proof -
  from inv have i0: "Inv0 s B" and en: "entries_ok s B" and re: "recent lt s B"
    and bd: "\<forall>k a. nodeMap s k = Some a \<longrightarrow> lt k \<le> T"
    and bound: "0 \<le> maxSize s \<longrightarrow> curSize s \<le> maxSize s"
    by (simp_all add: Inv_def Inv0_def)
  from insert_step[OF i0 re bd k, of v] obtain s' B' where
    run: "put_insert k v s = Some s'" and i': "Inv0 s' B'" "min_ok s' B'"
      "recent (lt(k := Suc T)) s' B'" "\<forall>k' a. nodeMap s' k' = Some a \<longrightarrow> (lt(k := Suc T)) k' \<le> Suc T"
    and same: "nodeMap s' = (nodeMap s)(k \<mapsto> fresh s)" "curSize s' = curSize s + 1"
      "maxSize s' = maxSize s"
    and da: "dat s' (fresh s) = Some (k, v, 1)"
    and db: "\<forall>b. nodes s b \<noteq> None \<longrightarrow> dat s' b = dat s b" by blast
  have "0 \<le> maxSize s' \<longrightarrow> curSize s' \<le> maxSize s'" using bound room same by auto
  with i' have inv': "Inv (Suc T) (lt(k := Suc T)) s' B'" by (simp add: Inv_def)
  have "put k v s = Some s'" using cap k room run by (simp add: put_def)
  with run inv' same insert_entry[OF en k same(1) da db] show ?thesis by auto
qed

lemma full_nonempty:
  assumes inv: "Inv T lt s B" and cap: "maxSize s \<noteq> 0" and full: "curSize s = maxSize s"
  shows "dom (nodeMap s) \<noteq> {}"
proof -
  from inv have "curSize s = int (card (dom (nodeMap s)))" by (simp add: Inv_def Inv0_def entries_ok_def)
  with cap full show ?thesis by auto
qed

lemma put_new_full:
  assumes inv: "Inv T lt s B" and k: "nodeMap s k = None" and cap: "maxSize s \<noteq> 0"
    and full: "curSize s = maxSize s"
  shows "\<exists>s1 s' B' e. put_evict s = Some s1 \<and> put_insert k v s1 = Some s' \<and> put k v s = Some s' \<and>
      Inv (Suc T) (lt(k := Suc T)) s' B' \<and> nodeMap s e = Some (last (B (minf s))) \<and>
      nodeMap s1 = (nodeMap s)(e := None) \<and> curSize s1 = curSize s - 1 \<and> (\<forall>k'. k' \<noteq> e \<longrightarrow> entry s1 k' = entry s k') \<and>
      dom (nodeMap s') = insert k (dom (nodeMap s) - {e}) \<and> curSize s' = curSize s \<and>
      maxSize s' = maxSize s \<and> entry s' = (entry s)(e := None, k \<mapsto> (v, 1))"
proof -
  from inv have bound: "0 \<le> maxSize s \<longrightarrow> curSize s \<le> maxSize s" by (simp add: Inv_def)
  from evict_step[OF inv full_nonempty[OF inv cap full]] obtain s1 B1 e where
    ev: "put_evict s = Some s1" and e: "nodeMap s e = Some (last (B (minf s)))"
    and i1: "Inv0 s1 B1" and re1: "recent lt s1 B1" and bd1: "\<forall>k a. nodeMap s1 k = Some a \<longrightarrow> lt k \<le> T"
    and same1: "nodeMap s1 = (nodeMap s)(e := None)" "curSize s1 = curSize s - 1" "maxSize s1 = maxSize s"
    and dd: "\<forall>b. dat s1 b = dat s b" by blast
  from i1 have en1: "entries_ok s1 B1" by (simp add: Inv0_def)
  have k1: "nodeMap s1 k = None" using k same1 by simp
  from insert_step[OF i1 re1 bd1 k1, of v] obtain s' B' where
    run: "put_insert k v s1 = Some s'" and i': "Inv0 s' B'" "min_ok s' B'"
      "recent (lt(k := Suc T)) s' B'" "\<forall>k' a. nodeMap s' k' = Some a \<longrightarrow> (lt(k := Suc T)) k' \<le> Suc T"
    and same: "nodeMap s' = (nodeMap s1)(k \<mapsto> fresh s1)" "curSize s' = curSize s1 + 1"
      "maxSize s' = maxSize s1"
    and da: "dat s' (fresh s1) = Some (k, v, 1)"
    and db: "\<forall>b. nodes s1 b \<noteq> None \<longrightarrow> dat s' b = dat s1 b" by blast
  have "0 \<le> maxSize s' \<longrightarrow> curSize s' \<le> maxSize s'" using bound full same same1 by auto
  with i' have inv': "Inv (Suc T) (lt(k := Suc T)) s' B'" by (simp add: Inv_def)
  have p: "put k v s = Some s'" using cap k full ev run by (simp add: put_def)
  have e1: "entry s1 k' = entry s k'" if "k' \<noteq> e" for k'
    by (rule entry_same) (use same1 dd that in auto)
  have "entry s1 e = None" using same1 by (simp add: entry_def)
  with e1 have "entry s1 = (entry s)(e := None)" by auto
  with insert_entry[OF en1 k1 same(1) da db] have ent: "entry s' = (entry s)(e := None, k \<mapsto> (v, 1))"
    by simp
  have dom: "dom (nodeMap s') = insert k (dom (nodeMap s) - {e})" using same(1) same1(1) by auto
  from ev run p inv' e same1 e1 dom same ent show ?thesis by (intro exI[of _ s1] exI[of _ s'] exI[of _ B'] exI[of _ e]) simp
qed

subsection \<open>Every call sequence runs and keeps the invariant\<close>

lemma last_touch_snoc: "last_touch (ops @ [x]) = (last_touch ops)(op_key x := Suc (length ops))"
  by (rule ext) (simp add: last_touch_def)

lemma zero_cap_empty:
  assumes inv: "Inv T lt s B" and z: "maxSize s = 0"
  shows "nodeMap s = Map.empty"
proof -
  from inv have "entries_ok s B" "0 \<le> maxSize s \<longrightarrow> curSize s \<le> maxSize s"
    by (simp_all add: Inv_def Inv0_def)
  then have "curSize s = int (card (dom (nodeMap s)))" "finite (dom (nodeMap s))"
    "curSize s \<le> 0" using z by (simp_all add: entries_ok_def)
  then have "dom (nodeMap s) = {}" by simp
  then show ?thesis by simp
qed

lemma step_entry:
  assumes inv: "Inv T lt s B"
  shows "\<exists>s' B'. step x s = Some s' \<and> Inv (Suc T) (lt(op_key x := Suc T)) s' B' \<and>
     maxSize s' = maxSize s \<and>
     (\<forall>k'. k' \<noteq> op_key x \<longrightarrow> entry s' k' = entry s k' \<or> entry s' k' = None) \<and>
     entry s' (op_key x) =
       (case x of
          Get k \<Rightarrow> map_option (\<lambda>(v, f). (v, f + 1)) (entry s k)
        | Put k v \<Rightarrow> if maxSize s = 0 then entry s k
                     else Some (v, case entry s k of None \<Rightarrow> 1 | Some (v0, f) \<Rightarrow> f + 1))"
proof (cases x)
  case (Get k)
  show ?thesis
  proof (cases "nodeMap s k")
    case None
    with Get get_miss[OF None] Inv_get_miss[OF inv None] entry_None[OF None] show ?thesis by auto
  next
    case (Some a)
    from get_hit[OF inv Some] obtain s' v c B' where
      "entry s k = Some (v, c)" "get k s = Some (v, s')" "Inv (Suc T) (lt(k := Suc T)) s' B'"
      "maxSize s' = maxSize s" "entry s' = (entry s)(k \<mapsto> (v, c + 1))" by blast
    with Get show ?thesis by (intro exI[of _ s'] exI[of _ B']) simp
  qed
next
  case (Put k v)
  show ?thesis
  proof (cases "maxSize s = 0")
    case True
    then have "nodeMap s k = None" using zero_cap_empty[OF inv] by simp
    with Put put_zero[OF True] Inv_get_miss[OF inv this] True show ?thesis by auto
  next
    case False
    show ?thesis
    proof (cases "nodeMap s k")
      case (Some a)
      from put_hit[OF inv Some False, of v] obtain s' v0 c B' where
        "entry s k = Some (v0, c)" "put k v s = Some s'" "Inv (Suc T) (lt(k := Suc T)) s' B'"
        "maxSize s' = maxSize s" "entry s' = (entry s)(k \<mapsto> (v, c + 1))" by blast
      with Put False show ?thesis by (intro exI[of _ s'] exI[of _ B']) simp
    next
      case None
      show ?thesis
      proof (cases "curSize s = maxSize s")
        case True
        from put_new_full[OF inv None False True, of v] obtain s' B' e where
          "put k v s = Some s'" "Inv (Suc T) (lt(k := Suc T)) s' B'"
          "maxSize s' = maxSize s" "entry s' = (entry s)(e := None, k \<mapsto> (v, 1))" by blast
        with Put False entry_None[OF None] show ?thesis by (intro exI[of _ s'] exI[of _ B']) simp
      next
        case room: False
        from put_new_room[OF inv None False room, of v] obtain s' B' where
          "put k v s = Some s'" "Inv (Suc T) (lt(k := Suc T)) s' B'"
          "maxSize s' = maxSize s" "entry s' = (entry s)(k \<mapsto> (v, 1))" by blast
        with Put False entry_None[OF None] show ?thesis by (intro exI[of _ s'] exI[of _ B']) simp
      qed
    qed
  qed
qed

lemma step_Inv:
  assumes inv: "Inv T lt s B"
  shows "\<exists>s' B'. step x s = Some s' \<and> Inv (Suc T) (lt(op_key x := Suc T)) s' B' \<and> maxSize s' = maxSize s"
  using step_entry[OF inv, of x] by blast

lemma run_snoc: "run (xs @ [x]) s = (case run xs s of None \<Rightarrow> None | Some s' \<Rightarrow> step x s')"
  by (induction xs arbitrary: s) (auto split: option.splits)

lemma run_append: "run (xs @ ys) s = (case run xs s of None \<Rightarrow> None | Some s' \<Rightarrow> run ys s')"
  by (induction xs arbitrary: s) (auto split: option.splits)

lemma Inv_init: "Inv 0 (last_touch []) (new_LFUCache c) (\<lambda>_. [])"
  by (simp add: Inv_def Inv0_def shape_def entries_ok_def min_ok_def recent_def new_LFUCache_def
      bucket_def)

lemma run_Inv:
  "\<exists>s B. run ops (new_LFUCache c) = Some s \<and> Inv (length ops) (last_touch ops) s B \<and> maxSize s = c"
proof (induction ops rule: rev_induct)
  case Nil
  show ?case using Inv_init[of c] by (auto simp: new_LFUCache_def)
next
  case (snoc x xs)
  then obtain s B where s: "run xs (new_LFUCache c) = Some s"
    "Inv (length xs) (last_touch xs) s B" "maxSize s = c" by blast
  from step_Inv[OF s(2), of x] obtain s' B' where s': "step x s = Some s'"
    "Inv (Suc (length xs)) ((last_touch xs)(op_key x := Suc (length xs))) s' B'" "maxSize s' = maxSize s"
    by blast
  have "run (xs @ [x]) (new_LFUCache c) = Some s'" using s(1) s'(1) by (simp add: run_snoc)
  moreover have "Inv (length (xs @ [x])) (last_touch (xs @ [x])) s' B'"
    using s'(2) by (simp only: last_touch_snoc length_append_singleton)
  ultimately show ?case using s'(3) s(3) by blast
qed

lemma reach_Inv:
  assumes "run ops (new_LFUCache c) = Some s"
  shows "\<exists>B. Inv (length ops) (last_touch ops) s B \<and> maxSize s = c"
  using run_Inv[of ops c] assms by auto

subsection \<open>Reading a bucket off the heap\<close>



subsection \<open>What the operations leave alone, in any state\<close>

lemma same_cache_refl [simp]: "same_cache s s"
  by (simp add: same_cache_def)

lemma upd_node_same_cache: "upd_node p f s = Some s' \<Longrightarrow> same_cache s s'"
  by (auto simp: upd_node_def same_cache_def split: option.splits)

lemma new_List_same_cache: "new_List s = Some (l, s') \<Longrightarrow> same_cache s s'"
  by (auto simp: new_List_explicit same_cache_def)

lemma addNode_same_cache: "addNode l a s = Some s' \<Longrightarrow> same_cache s s'"
  unfolding addNode_def
  by (auto split: Option.bind_splits dest!: upd_node_same_cache simp: same_cache_def Let_def)

lemma delNode_same_cache: "delNode l a s = Some s' \<Longrightarrow> same_cache s s'"
  unfolding delNode_def
  by (auto split: Option.bind_splits dest!: upd_node_same_cache simp: same_cache_def Let_def)

lemma updateFreqList_frame:
  assumes "updateFreqList a s = Some s'"
  shows "curSize s' = curSize s \<and> maxSize s' = maxSize s \<and> nodeMap s' = nodeMap s \<and>
     dom (listMap s) \<subseteq> dom (listMap s')"
  using assms unfolding updateFreqList_def
  by (auto split: Option.bind_splits option.splits if_splits prod.splits
      dest!: upd_node_same_cache addNode_same_cache delNode_same_cache new_List_same_cache
      simp: same_cache_def Let_def)

lemma get_frame_any:
  assumes "get k s = Some (r, s')"
  shows "curSize s' = curSize s \<and> maxSize s' = maxSize s \<and> nodeMap s' = nodeMap s \<and>
     dom (listMap s) \<subseteq> dom (listMap s')"
  using assms unfolding get_def
  by (auto split: option.splits Option.bind_splits dest!: updateFreqList_frame)

lemma put_evict_listMap: "put_evict s = Some s' \<Longrightarrow> listMap s' = listMap s"
  unfolding put_evict_def
  by (auto split: Option.bind_splits dest!: delNode_same_cache simp: same_cache_def Let_def)




subsection \<open>Facts about single calls and call sequences\<close>


lemma run_keeps_value:
  assumes "Inv T lt s B" "\<forall>x\<in>set ops. \<not> puts_to k x"
    and "entry s k = None \<or> (\<exists>f. entry s k = Some (v, f))"
  shows "\<exists>s' T' lt' B'. run ops s = Some s' \<and> Inv T' lt' s' B' \<and>
           (entry s' k = None \<or> (\<exists>f. entry s' k = Some (v, f)))"
  using assms
proof (induction ops arbitrary: s T lt B)
  case Nil
  then show ?case by auto
next
  case (Cons x xs)
  from step_entry[OF Cons.prems(1), of x] obtain s1 B1 where
    s1: "step x s = Some s1" "Inv (Suc T) (lt(op_key x := Suc T)) s1 B1"
    and oth: "\<forall>k'. k' \<noteq> op_key x \<longrightarrow> entry s1 k' = entry s k' \<or> entry s1 k' = None"
    and own: "entry s1 (op_key x) =
       (case x of
          Get k \<Rightarrow> map_option (\<lambda>(v, f). (v, f + 1)) (entry s k)
        | Put k v \<Rightarrow> if maxSize s = 0 then entry s k
                     else Some (v, case entry s k of None \<Rightarrow> 1 | Some (v0, f) \<Rightarrow> f + 1))"
    by blast
  have np: "\<not> puts_to k x" using Cons.prems(2) by simp
  have "entry s1 k = None \<or> (\<exists>f. entry s1 k = Some (v, f))"
  proof (cases "op_key x = k")
    case False
    with oth Cons.prems(3) show ?thesis by metis
  next
    case True
    with np obtain k' where "x = Get k" by (cases x) auto
    with own True Cons.prems(3) show ?thesis by auto
  qed
  from Cons.IH[OF s1(2) _ this] Cons.prems(2) s1(1) show ?case by auto
qed

lemma step_freq_mono:
  assumes inv: "Inv T lt s B" and st: "step x s = Some s'"
    and e: "entry s k = Some (v1, f1)" and e': "entry s' k = Some (v2, f2)"
  shows "f1 \<le> f2"
proof -
  from step_entry[OF inv, of x] st have oth: "k \<noteq> op_key x \<longrightarrow> entry s' k = entry s k \<or> entry s' k = None"
    and own: "entry s' (op_key x) =
       (case x of
          Get k \<Rightarrow> map_option (\<lambda>(v, f). (v, f + 1)) (entry s k)
        | Put k v \<Rightarrow> if maxSize s = 0 then entry s k
                     else Some (v, case entry s k of None \<Rightarrow> 1 | Some (v0, f) \<Rightarrow> f + 1))"
    by auto
  show ?thesis
  proof (cases "k = op_key x")
    case False
    with oth e e' show ?thesis by auto
  next
    case True
    with own e e' show ?thesis by (cases x) (auto split: if_splits)
  qed
qed

lemma stays_present: "stays k ops s \<Longrightarrow> entry s k \<noteq> None"
  by (cases ops) auto

lemma run_freq_mono:
  assumes "Inv T lt s B" and "stays k ops s" and "run ops s = Some s2"
    and "entry s k = Some (v1, f1)" and "entry s2 k = Some (v2, f2)"
  shows "f1 \<le> f2"
  using assms
proof (induction ops arbitrary: s T lt B v1 f1)
  case Nil
  then show ?case by simp
next
  case (Cons x xs)
  from step_Inv[OF Cons.prems(1), of x] obtain s1 B1 where
    s1: "step x s = Some s1" "Inv (Suc T) (lt(op_key x := Suc T)) s1 B1" by blast
  from Cons.prems(2) s1(1) have st: "stays k xs s1" by simp
  from Cons.prems(3) s1(1) have r: "run xs s1 = Some s2" by simp
  from stays_present[OF st] obtain v' f' where e1: "entry s1 k = Some (v', f')" by auto
  from step_freq_mono[OF Cons.prems(1) s1(1) Cons.prems(4) e1] have "f1 \<le> f'" .
  moreover from Cons.IH[OF s1(2) st r e1 Cons.prems(5)] have "f' \<le> f2" .
  ultimately show ?case by simp
qed

lemma run_untouched:
  assumes "Inv T lt s B" and "\<forall>x\<in>set ops. op_key x \<noteq> k"
  shows "\<exists>s' T' lt' B'. run ops s = Some s' \<and> Inv T' lt' s' B' \<and>
           (entry s' k = entry s k \<or> entry s' k = None)"
  using assms
proof (induction ops arbitrary: s T lt B)
  case Nil
  then show ?case by auto
next
  case (Cons x xs)
  from step_entry[OF Cons.prems(1), of x] Cons.prems(2) obtain s1 B1 where
    s1: "step x s = Some s1" "Inv (Suc T) (lt(op_key x := Suc T)) s1 B1"
    and oth: "entry s1 k = entry s k \<or> entry s1 k = None" by auto
  from Cons.IH[OF s1(2)] Cons.prems(2) obtain s' T' lt' B' where
    r: "run xs s1 = Some s'" "Inv T' lt' s' B'" "entry s' k = entry s1 k \<or> entry s' k = None" by auto
  from r(3) oth have "entry s' k = entry s k \<or> entry s' k = None" by auto
  with s1(1) r(1,2) show ?case by auto
qed

text \<open>
  The reading of \<open>last_touch\<close>: when the cache holds key \<open>k\<close> after a call sequence, the
  last call that names \<open>k\<close> is the one that inserted the entry (frequency 1) or promoted it
  (frequency one more than before), and no later call changed the entry.
\<close>

lemma last_touch_moved_entry:
  assumes r: "run (xs @ x # ys) (new_LFUCache c) = Some s" and x: "op_key x = k"
    and ys: "\<forall>y\<in>set ys. op_key y \<noteq> k" and e: "entry s k = Some (v, f)"
  shows "last_touch (xs @ x # ys) k = Suc (length xs) \<and>
         (\<exists>s0 s1. run xs (new_LFUCache c) = Some s0 \<and> step x s0 = Some s1 \<and>
            run ys s1 = Some s \<and> entry s1 k = Some (v, f) \<and>
            f = (case entry s0 k of None \<Rightarrow> 1 | Some (v0, f0) \<Rightarrow> f0 + 1))"
proof
  have "dropWhile (\<lambda>y. op_key y \<noteq> k) (rev ys @ x # rev xs)
      = dropWhile (\<lambda>y. op_key y \<noteq> k) (x # rev xs)"
    by (rule dropWhile_append2) (use ys in auto)
  with x have "dropWhile (\<lambda>y. op_key y \<noteq> k) (rev ys @ x # rev xs) = x # rev xs" by simp
  then show "last_touch (xs @ x # ys) k = Suc (length xs)" by (simp add: last_touch_def)
next
  from run_Inv[of xs c] obtain s0 B0 where s0: "run xs (new_LFUCache c) = Some s0"
    and inv0: "Inv (length xs) (last_touch xs) s0 B0" by blast
  from step_entry[OF inv0, of x] obtain s1 B1 where
    s1: "step x s0 = Some s1" and inv1: "Inv (Suc (length xs)) ((last_touch xs)(op_key x := Suc (length xs))) s1 B1"
    and own: "entry s1 (op_key x) =
       (case x of
          Get k \<Rightarrow> map_option (\<lambda>(v, f). (v, f + 1)) (entry s0 k)
        | Put k v \<Rightarrow> if maxSize s0 = 0 then entry s0 k
                     else Some (v, case entry s0 k of None \<Rightarrow> 1 | Some (v0, f) \<Rightarrow> f + 1))"
    by blast
  from run_untouched[OF inv1 ys] obtain s' where s': "run ys s1 = Some s'"
    "entry s' k = entry s1 k \<or> entry s' k = None" by blast
  have "run (xs @ x # ys) (new_LFUCache c) = Some s'" using s0 s1 s'(1) by (simp add: run_append)
  with r have ss: "s' = s" by simp
  with s'(2) e have e1: "entry s1 k = Some (v, f)" by auto
  have z: "entry s0 k = None" if "maxSize s0 = 0"
    using zero_cap_empty[OF inv0 that] by (simp add: entry_def)
  have "f = (case entry s0 k of None \<Rightarrow> 1 | Some (v0, f0) \<Rightarrow> f0 + 1)"
    using own e1 x z by (cases x; cases "entry s0 k") (auto split: if_splits)
  with s0 s1 s'(1) ss e1
  show "\<exists>s0 s1. run xs (new_LFUCache c) = Some s0 \<and> step x s0 = Some s1 \<and>
            run ys s1 = Some s \<and> entry s1 k = Some (v, f) \<and>
            f = (case entry s0 k of None \<Rightarrow> 1 | Some (v0, f0) \<Rightarrow> f0 + 1)" by blast
qed

lemma run_total: "\<exists>s. run ops (new_LFUCache c) = Some s"
  using run_Inv[of ops c] by blast

lemma Inv_entry:
  assumes inv: "Inv T lt s B" and e: "entry s k = Some (v, f)"
  shows "\<exists>a. nodeMap s k = Some a \<and> dat s a = Some (k, v, f)"
proof -
  from inv have en: "entries_ok s B" by (simp add: Inv_def Inv0_def)
  from e obtain a where a: "nodeMap s k = Some a" by (auto simp: entry_def split: option.splits)
  from entD2[OF en a] obtain v' c' where d: "dat s a = Some (k, v', c')" by blast
  from entry_dat[OF a d] e have "v' = v" "c' = f" by simp_all
  with a d show ?thesis by simp
qed

lemma Inv_entry_iff:
  assumes inv: "Inv T lt s B"
  shows "(entry s k = None) = (nodeMap s k = None)"
  using Inv_entry_dom[OF inv] by (metis domIff)

lemma get_returns_entry:
  assumes inv: "Inv T lt s B" and e: "entry s k = Some (v, f)"
  shows "\<exists>s' B'. get k s = Some (v, s') \<and> entry s' k = Some (v, f + 1) \<and>
           Inv (Suc T) (lt(k := Suc T)) s' B'"
proof -
  from Inv_entry[OF inv e] obtain a where a: "nodeMap s k = Some a" by blast
  from get_hit[OF inv a] e show ?thesis by fastforce
qed

lemma put_stores:
  assumes inv: "Inv T lt s B" and cap: "maxSize s \<noteq> 0"
  shows "\<exists>s' B' f. put k v s = Some s' \<and> Inv (Suc T) (lt(k := Suc T)) s' B' \<and>
           entry s' k = Some (v, f) \<and> f = (case entry s k of None \<Rightarrow> 1 | Some (v0, f0) \<Rightarrow> f0 + 1) \<and>
           (nodeMap s k \<noteq> None \<longrightarrow> curSize s' = curSize s \<and> nodeMap s' = nodeMap s) \<and>
           (\<exists>e. dom (nodeMap s) - dom (nodeMap s') \<subseteq> {e}) \<and>
           (curSize s \<noteq> maxSize s \<longrightarrow> dom (nodeMap s') = insert k (dom (nodeMap s)))"
proof (cases "nodeMap s k")
  case (Some a)
  from put_hit[OF inv Some cap, of v] obtain s' v0 c B' where
    "entry s k = Some (v0, c)" "put k v s = Some s'" "Inv (Suc T) (lt(k := Suc T)) s' B'"
    "nodeMap s' = nodeMap s" "curSize s' = curSize s" "entry s' = (entry s)(k \<mapsto> (v, c + 1))" by blast
  with Some show ?thesis by (intro exI[of _ s'] exI[of _ B']) auto
next
  case None
  show ?thesis
  proof (cases "curSize s = maxSize s")
    case True
    from put_new_full[OF inv None cap True, of v] obtain s' B' e where
      "put k v s = Some s'" "Inv (Suc T) (lt(k := Suc T)) s' B'"
      "dom (nodeMap s') = insert k (dom (nodeMap s) - {e})" "entry s' = (entry s)(e := None, k \<mapsto> (v, 1))"
      by blast
    with None True entry_None[OF None] show ?thesis by (intro exI[of _ s'] exI[of _ B']) auto
  next
    case False
    from put_new_room[OF inv None cap False, of v] obtain s' B' where
      "put k v s = Some s'" "Inv (Suc T) (lt(k := Suc T)) s' B'"
      "dom (nodeMap s') = insert k (dom (nodeMap s))" "entry s' = (entry s)(k \<mapsto> (v, 1))" by blast
    with None entry_None[OF None] show ?thesis by (intro exI[of _ s'] exI[of _ B']) auto
  qed
qed

lemma Inv_size:
  assumes inv: "Inv T lt s B"
  shows "0 \<le> curSize s" "0 \<le> maxSize s \<Longrightarrow> curSize s \<le> maxSize s"
    "curSize s \<noteq> 0 \<Longrightarrow> dom (nodeMap s) \<noteq> {}"
  using inv by (auto simp: Inv_def Inv0_def entries_ok_def)


subsection \<open>Where the 32-bit program and the program over the integers agree\<close>

lemma int32_id: "- 2147483648 \<le> x \<Longrightarrow> x \<le> 2147483647 \<Longrightarrow> int32 x = x"
  by (simp add: int32_def)

lemma int32_overflow: "int32 2147483648 = - 2147483648"
  by (simp add: int32_def)

lemma addNode32_eq:
  assumes "\<And>L. lists s l = Some L \<Longrightarrow> int32 (size L + 1) = size L + 1"
  shows "addNode32 l a s = addNode l a s"
proof (cases "lists s l")
  case None
  then show ?thesis by (simp add: addNode32_def addNode_def)
next
  case (Some L)
  with assms[OF Some] show ?thesis by (simp add: addNode32_def addNode_def)
qed

lemma delNode32_eq:
  assumes "\<And>L. lists s l = Some L \<Longrightarrow> int32 (size L - 1) = size L - 1"
  shows "delNode32 l a s = delNode l a s"
proof (cases "lists s l")
  case None
  then show ?thesis by (simp add: delNode32_def delNode_def)
next
  case (Some L)
  with assms[OF Some] show ?thesis by (simp add: delNode32_def delNode_def)
qed

lemma updateFreqList32_run:
  assumes "nodes s a = Some n" "listMap s (count n) = Some l" "delNode32 l a s = Some s1"
    and "lists s1 l = Some L1"
    and s2: "s2 = (if count n = minf s1 \<and> size L1 = 0 then s1\<lparr>minf := int32 (minf s1 + 1)\<rparr> else s1)"
    and "(case listMap s2 (int32 (count n + 1)) of Some hl \<Rightarrow> Some (hl, False, s2)
         | None \<Rightarrow> do { (hl, s') \<leftarrow> new_List s2; Some (hl, True, s') }) = Some (hl, nl, s3)"
    and "upd_node (Some a) (\<lambda>m. m\<lparr>count := int32 (count m + 1)\<rparr>) s3 = Some s4"
    and "addNode32 hl a s4 = Some s5" "nodes s5 a = Some n5"
  shows "updateFreqList32 a s = Some (if nl then s5\<lparr>listMap := (listMap s5)(count n5 \<mapsto> hl)\<rparr> else s5)"
  unfolding updateFreqList32_def using assms(1-4,6-) by (simp add: s2[symmetric])

lemma updateFreqList32_shape:
  assumes sh: "shape (listMap s) (nodes s) (lists s) (fresh s) B"
    and n: "nodes s a = Some n" and c: "c = count n" and a: "a \<in> set (B c)"
    and c': "c' = int32 (c + 1)" and ne: "c' \<noteq> c"
    and small: "\<forall>f. int (length (B f)) < 2147483647"
  shows "\<exists>s'. updateFreqList32 a s = Some s' \<and> nodeMap s' = nodeMap s \<and>
      map_option data (nodes s' a) = Some (key n, val n, c') \<and>
      (c' = c + 1 \<longrightarrow> updateFreqList a s = Some s')"
proof -
  let ?B1 = "B(c := remove1 a (B c))"
  obtain l where l: "listMap s c = Some l"
    using shapeD2[OF sh, of c] a by (cases "listMap s c") auto
  from shape_del[OF sh l a] obtain ns1 L where L: "lists s l = Some L" "size L = int (length (B c))"
    and del: "delNode l a s = Some (s\<lparr>nodes := ns1, lists := (lists s)(l \<mapsto> L\<lparr>size := size L - 1\<rparr>)\<rparr>)"
    and sh1: "shape (listMap s) ns1 ((lists s)(l \<mapsto> L\<lparr>size := size L - 1\<rparr>)) (fresh s) ?B1"
    and d1: "\<forall>b. map_option data (ns1 b) = map_option data (nodes s b)"
    by blast
  have pos: "1 \<le> length (B c)" using a by (cases "B c") auto
  have "int32 (size L - 1) = size L - 1"
    using L(2) pos small[rule_format, of c] by (intro int32_id) auto
  with L(1) have "delNode32 l a s = delNode l a s" by (intro delNode32_eq) simp
  with del have del32:
    "delNode32 l a s = Some (s\<lparr>nodes := ns1, lists := (lists s)(l \<mapsto> L\<lparr>size := size L - 1\<rparr>)\<rparr>)"
    by simp
  define m2 where "m2 = (if c = minf s \<and> B c = [a] then int32 (minf s + 1) else minf s)"
  define s2 where "s2 = s\<lparr>nodes := ns1, lists := (lists s)(l \<mapsto> L\<lparr>size := size L - 1\<rparr>), minf := m2\<rparr>"
  have lo1: "loose (listMap s2) (lists s2) ?B1 a"
    using shape_del_loose[OF sh l L(1) a] by (simp add: s2_def)
  have sh2: "shape (listMap s2) (nodes s2) (lists s2) (fresh s2) ?B1"
    using sh1 by (simp add: s2_def)
  have a2: "nodes s2 a \<noteq> None" using d1[rule_format, of a] n by (auto simp: s2_def)
  from shape_ensure[OF sh2 lo1 a2, of c'] obtain hl s3 where
    ens: "(case listMap s2 c' of Some hl \<Rightarrow> Some (hl, False, s2)
         | None \<Rightarrow> do { (hl, s') \<leftarrow> new_List s2; Some (hl, True, s') }) = Some (hl, listMap s2 c' = None, s3)"
    and s3: "same_cache s2 s3"
    and sh3: "shape ((listMap s2)(c' \<mapsto> hl)) (nodes s3) (lists s3) (fresh s3) ?B1"
    and lo3: "loose ((listMap s2)(c' \<mapsto> hl)) (lists s3) ?B1 a"
    and fr3: "\<forall>b. nodes s2 b \<noteq> None \<longrightarrow> nodes s3 b = nodes s2 b"
    by blast
  obtain n3 where n3: "nodes s3 a = Some n3" "data n3 = data n"
    using fr3 a2 d1[rule_format, of a] n by (auto simp: s2_def)
  have c3: "count n3 = c" using n3(2) c by (simp add: data_def)
  define s4 where "s4 = s3\<lparr>nodes := (nodes s3)(a \<mapsto> n3\<lparr>count := c'\<rparr>)\<rparr>"
  have up4: "upd_node (Some a) (\<lambda>m. m\<lparr>count := int32 (count m + 1)\<rparr>) s3 = Some s4"
    using n3 by (simp add: upd_node_Some s4_def c3 c')
  let ?lm = "(listMap s2)(c' \<mapsto> hl)"
  have sh4: "shape ?lm (nodes s4) (lists s4) (fresh s4) ?B1"
    using shape_data_upd[OF sh3 n3(1), of "n3\<lparr>count := c'\<rparr>"] by (simp add: s4_def)
  have lo4: "loose ?lm (lists s4) ?B1 a" using lo3 by (simp add: s4_def)
  have n4: "nodes s4 a = Some (n3\<lparr>count := c'\<rparr>)" by (simp add: s4_def)
  have lmh: "?lm c' = Some hl" by simp
  from shape_add[OF sh4 lmh n4 lo4[unfolded loose_def]]
  obtain ns5 H where H: "lists s4 hl = Some H"
    and add: "addNode hl a s4 = Some (s4\<lparr>nodes := ns5, lists := (lists s4)(hl \<mapsto> H\<lparr>size := size H + 1\<rparr>)\<rparr>)"
    and d5: "\<forall>b. map_option data (ns5 b) = map_option data (nodes s4 b)"
    by blast
  from shapeD1[OF sh4 lmh] H have "size H = int (length (?B1 c'))" by auto
  then have "size H = int (length (B c'))" using ne by simp
  then have "int32 (size H + 1) = size H + 1"
    using small[rule_format, of c'] by (intro int32_id) auto
  with H have "addNode32 hl a s4 = addNode hl a s4" by (intro addNode32_eq) simp
  with add have add32:
    "addNode32 hl a s4 = Some (s4\<lparr>nodes := ns5, lists := (lists s4)(hl \<mapsto> H\<lparr>size := size H + 1\<rparr>)\<rparr>)"
    by simp
  define s5 where "s5 = s4\<lparr>nodes := ns5, lists := (lists s4)(hl \<mapsto> H\<lparr>size := size H + 1\<rparr>)\<rparr>"
  obtain n5 where n5: "nodes s5 a = Some n5" "data n5 = data (n3\<lparr>count := c'\<rparr>)"
    using d5[rule_format, of a] n4 by (auto simp: s5_def)
  define s6 where "s6 = s5\<lparr>listMap := ?lm\<rparr>"
  have fin: "(if listMap s2 c' = None then s5\<lparr>listMap := (listMap s5)(count n5 \<mapsto> hl)\<rparr> else s5) = s6"
  proof -
    have cn: "count n5 = c'" using n5(2) by (simp add: data_def)
    have lm5: "listMap s5 = listMap s2" using s3 by (simp add: s5_def s4_def same_cache_def)
    show ?thesis
    proof (cases "listMap s2 c'")
      case None
      then show ?thesis by (simp add: s6_def cn lm5)
    next
      case (Some hl')
      with ens have "hl' = hl" by simp
      with Some have "?lm = listMap s5" by (simp add: lm5 map_upd_triv)
      then show ?thesis using Some by (simp add: s6_def)
    qed
  qed
  have L1: "lists (s\<lparr>nodes := ns1, lists := (lists s)(l \<mapsto> L\<lparr>size := size L - 1\<rparr>)\<rparr>) l = Some (L\<lparr>size := size L - 1\<rparr>)"
    by simp
  have cond: "(c = minf s \<and> size L - 1 = 0) = (c = minf s \<and> B c = [a])"
    using L(2) length_one_iff[OF a] by auto
  define s1 where "s1 = s\<lparr>nodes := ns1, lists := (lists s)(l \<mapsto> L\<lparr>size := size L - 1\<rparr>)\<rparr>"
  have s2': "s2 = (if count n = minf s1 \<and> size (L\<lparr>size := size L - 1\<rparr>) = 0
        then s1\<lparr>minf := int32 (minf s1 + 1)\<rparr> else s1)"
    using cond by (cases "c = minf s \<and> B c = [a]") (auto simp: s2_def m2_def s1_def c[symmetric])
  have run32: "updateFreqList32 a s = Some s6"
    using updateFreqList32_run[OF n l[unfolded c] del32[folded s1_def] L1[folded s1_def] s2'
        ens[unfolded c' c] up4 add32[folded s5_def] n5(1)] fin
    by (simp add: c c')
  have nm: "nodeMap s6 = nodeMap s"
    using s3 by (simp add: s6_def s5_def s4_def s2_def same_cache_def)
  have da: "map_option data (nodes s6 a) = Some (key n, val n, c')"
    using n5 n3(2) by (simp add: s6_def data_def)
  have agree: "updateFreqList a s = Some s6" if eq: "c' = c + 1"
  proof -
    have "int32 (minf s + 1) = minf s + 1" if "c = minf s"
      using c' eq that by simp
    then have s2u: "s2 = (if count n = minf s1 \<and> size (L\<lparr>size := size L - 1\<rparr>) = 0
        then s1\<lparr>minf := minf s1 + 1\<rparr> else s1)"
      using cond by (cases "c = minf s \<and> B c = [a]") (auto simp: s2_def m2_def s1_def c[symmetric])
    have up4u: "upd_node (Some a) (\<lambda>m. m\<lparr>count := count m + 1\<rparr>) s3 = Some s4"
      using n3 by (simp add: upd_node_Some s4_def c3 eq)
    show ?thesis
      using updateFreqList_run[OF n l[unfolded c] del[folded s1_def] L1[folded s1_def] s2u
        ens[unfolded eq c] up4u add[folded s5_def] n5(1)] fin
      by (simp add: c eq)
  qed
  from run32 nm da agree show ?thesis by blast
qed

lemma put_evict32_eq:
  assumes sz: "\<And>l L. listMap s (minf s) = Some l \<Longrightarrow> lists s l = Some L \<Longrightarrow> int32 (size L - 1) = size L - 1"
    and cs: "int32 (curSize s - 1) = curSize s - 1"
  shows "put_evict32 s = put_evict s"
proof (cases "listMap s (minf s)")
  case None
  then show ?thesis by (simp add: put_evict32_def put_evict_def)
next
  case l: (Some l)
  show ?thesis
  proof (cases "lists s l")
    case None
    with l show ?thesis by (simp add: put_evict32_def put_evict_def)
  next
    case L: (Some L)
    have d: "delNode32 l d s1 = delNode l d s1" if "lists s1 = lists s" for d s1
      using sz[OF l L] L that by (intro delNode32_eq) simp
    have c: "int32 (curSize s2 - 1) = curSize s2 - 1" if "delNode l d s1 = Some s2" "curSize s1 = curSize s"
      for d s1 s2
      using delNode_same_cache[OF that(1)] that(2) cs by (simp add: same_cache_def)
    show ?thesis
      unfolding put_evict32_def put_evict_def
      by (auto simp: l L d c Let_def split: Option.bind_splits)
  qed
qed

lemma put_insert32_eq:
  assumes sz: "\<And>l L. listMap s 1 = Some l \<Longrightarrow> lists s l = Some L \<Longrightarrow> int32 (size L + 1) = size L + 1"
    and cs: "int32 (curSize s + 1) = curSize s + 1"
  shows "put_insert32 k v s = put_insert k v s"
proof -
  let ?N = "\<lparr>key = k, val = v, count = 1, next = None, prev = None\<rparr>"
  define s2 where "s2 = s\<lparr>minf := 1, nodes := (nodes s)(fresh s \<mapsto> ?N), fresh := Suc (fresh s)\<rparr>"
  have nn: "new_Node k v (s\<lparr>minf := 1\<rparr>) = (fresh s, s2)" by (simp add: new_Node_def s2_def)
  have m2: "minf s2 = 1" by (simp add: s2_def)
  have "addNode32 l (fresh s) s3 = addNode l (fresh s) s3"
    if ens: "(case listMap s2 1 of Some l \<Rightarrow> Some (l, s2) | None \<Rightarrow> new_List s2) = Some (l, s3)" for l s3
  proof (rule addNode32_eq)
    fix L assume L: "lists s3 l = Some L"
    show "int32 (size L + 1) = size L + 1"
    proof (cases "listMap s2 1")
      case (Some l')
      with ens have "l' = l" "s3 = s2" by simp_all
      with Some L have "listMap s 1 = Some l" "lists s l = Some L" by (simp_all add: s2_def)
      then show ?thesis by (rule sz)
    next
      case None
      with ens L have "size L = 0" by (auto simp: new_List_explicit)
      then show ?thesis by (simp add: int32_def)
    qed
  qed
  moreover have "int32 (curSize s4 + 1) = curSize s4 + 1"
    if ens: "(case listMap s2 1 of Some l \<Rightarrow> Some (l, s2) | None \<Rightarrow> new_List s2) = Some (l, s3)"
      and add: "addNode l (fresh s) s3 = Some s4" for l s3 s4
  proof -
    have "curSize s3 = curSize s2"
      using ens new_List_same_cache[of s2 l s3] by (cases "listMap s2 1") (auto simp: same_cache_def)
    with addNode_same_cache[OF add] have "curSize s4 = curSize s" by (simp add: same_cache_def s2_def)
    with cs show ?thesis by simp
  qed
  ultimately show ?thesis
    unfolding put_insert32_def put_insert_def
    by (auto simp: nn m2 Let_def split: Option.bind_splits)
qed

lemma bucket_length_le:
  assumes i0: "Inv0 s B"
  shows "int (length (B f)) \<le> curSize s"
proof -
  from i0 have sh: "shape (listMap s) (nodes s) (lists s) (fresh s) B" and en: "entries_ok s B"
    by (simp_all add: Inv0_def)
  from en have fin: "finite (dom (nodeMap s))" and cs: "curSize s = int (card (dom (nodeMap s)))"
    by (simp_all add: entries_ok_def)
  have sub: "akey s ` set (B f) \<subseteq> dom (nodeMap s)"
  proof
    fix k assume "k \<in> akey s ` set (B f)"
    then obtain a where a: "a \<in> set (B f)" "k = akey s a" by blast
    from entD1[OF en a(1)] obtain k' v where d: "dat s a = Some (k', v, f)" "nodeMap s k' = Some a"
      by blast
    with a(2) have "k' = k" by (simp add: akey_dat)
    with d(2) show "k \<in> dom (nodeMap s)" by auto
  qed
  have inj: "inj_on (akey s) (set (B f))"
  proof (rule inj_onI)
    fix a b assume ab: "a \<in> set (B f)" "b \<in> set (B f)" "akey s a = akey s b"
    from entD1[OF en ab(1)] entD1[OF en ab(2)] ab(3) show "a = b" by (auto simp: akey_dat)
  qed
  have "length (B f) = card (akey s ` set (B f))"
    using card_image[OF inj] shape_distinct[OF sh, of f] by (simp add: distinct_card)
  also have "\<dots> \<le> card (dom (nodeMap s))" using sub fin by (rule card_mono[rotated])
  finally show ?thesis using cs by simp
qed

lemma promote32_eq:
  assumes inv: "Inv T lt s B" and k: "nodeMap s k = Some a"
    and cs: "curSize s < 2147483647" and fb: "\<forall>f. B f \<noteq> [] \<longrightarrow> f < 2147483647"
  shows "updateFreqList32 a s = updateFreqList a s"
proof -
  from inv have i0: "Inv0 s B" by (simp add: Inv_def)
  then have sh: "shape (listMap s) (nodes s) (lists s) (fresh s) B" and en: "entries_ok s B"
    by (simp_all add: Inv0_def)
  from entD2[OF en k] obtain v c where d: "dat s a = Some (k, v, c)" and a: "a \<in> set (B c)" by blast
  from d obtain n where n: "nodes s a = Some n" and c: "c = count n" by (auto simp: dat_Some)
  have ne: "B c \<noteq> []" using a by auto
  have lo: "1 \<le> c" using entD4[OF en ne] .
  have hi: "c < 2147483647" using fb ne by blast
  have c': "c + 1 = int32 (c + 1)" using lo hi by (simp add: int32_id)
  have small: "\<forall>f. int (length (B f)) < 2147483647"
  proof
    fix f show "int (length (B f)) < 2147483647"
      using bucket_length_le[OF i0, of f] cs by (rule le_less_trans)
  qed
  from updateFreqList32_shape[OF sh n c a c' _ small] show ?thesis by auto
qed

lemma bucket_freq_bound:
  assumes inv: "Inv T lt s B" and fr: "\<forall>k v f. entry s k = Some (v, f) \<longrightarrow> f < m"
  shows "\<forall>f. B f \<noteq> [] \<longrightarrow> f < m"
proof (intro allI impI)
  fix f assume ne: "B f \<noteq> []"
  from inv have en: "entries_ok s B" by (simp add: Inv_def Inv0_def)
  from ne have "hd (B f) \<in> set (B f)" by simp
  from entD1[OF en this] obtain k v where "dat s (hd (B f)) = Some (k, v, f)" "nodeMap s k = Some (hd (B f))"
    by blast
  from entry_dat[OF this(2,1)] fr show "f < m" by blast
qed

lemma get32_eq:
  assumes inv: "Inv T lt s B"
    and cs: "curSize s < 2147483647" and fr: "\<forall>k v f. entry s k = Some (v, f) \<longrightarrow> f < 2147483647"
  shows "get32 k s = get k s"
proof (cases "nodeMap s k")
  case None
  then show ?thesis by (simp add: get32_def get_def)
next
  case (Some a)
  from promote32_eq[OF inv Some cs bucket_freq_bound[OF inv fr]] Some show ?thesis
    by (simp add: get32_def get_def)
qed

lemma put32_eq:
  assumes inv: "Inv T lt s B"
    and cs: "curSize s < 2147483647" and fr: "\<forall>k v f. entry s k = Some (v, f) \<longrightarrow> f < 2147483647"
  shows "put32 k v s = put k v s"
proof -
  from inv have i0: "Inv0 s B" by (simp add: Inv_def)
  then have sh: "shape (listMap s) (nodes s) (lists s) (fresh s) B" and en: "entries_ok s B"
    by (simp_all add: Inv0_def)
  note fb = bucket_freq_bound[OF inv fr]
  have c0: "0 \<le> curSize s" using Inv_size(1)[OF inv] .
  show ?thesis
  proof (cases "maxSize s = 0")
    case True
    then show ?thesis by (simp add: put32_def put_def)
  next
    case nz: False
    show ?thesis
    proof (cases "nodeMap s k")
      case (Some a)
      from entD2[OF en Some] obtain n where n: "nodes s a = Some n" by (auto simp: dat_Some)
      define s1 where "s1 = s\<lparr>nodes := (nodes s)(a \<mapsto> n\<lparr>val := v\<rparr>)\<rparr>"
      have up: "upd_node (Some a) (\<lambda>n. n\<lparr>val := v\<rparr>) s = Some s1"
        using n by (simp add: upd_node_Some s1_def)
      have inv1: "Inv T lt s1 B" using Inv_val[OF inv n] by (simp add: s1_def)
      have "updateFreqList32 a s1 = updateFreqList a s1"
        by (rule promote32_eq[OF inv1 _ _ fb]) (use Some cs in \<open>simp_all add: s1_def\<close>)
      with nz Some up show ?thesis by (simp add: put32_def put_def)
    next
      case None
      have ins: "put_insert32 k v s1 = put_insert k v s1"
        if i1: "Inv0 s1 B1" and c1: "curSize s1 < 2147483647" "0 \<le> curSize s1" for s1 B1
      proof (rule put_insert32_eq)
        fix l L assume l: "listMap s1 1 = Some l" "lists s1 l = Some L"
        from i1 have "shape (listMap s1) (nodes s1) (lists s1) (fresh s1) B1" by (simp add: Inv0_def)
        from shapeD1[OF this l(1)] l(2) have "size L = int (length (B1 1))" by auto
        with bucket_length_le[OF i1, of 1] c1 show "int32 (size L + 1) = size L + 1"
          by (intro int32_id) auto
      next
        show "int32 (curSize s1 + 1) = curSize s1 + 1" using c1 by (intro int32_id) auto
      qed
      show ?thesis
      proof (cases "curSize s = maxSize s")
        case False
        with nz None ins[OF i0 cs c0] show ?thesis by (simp add: put32_def put_def)
      next
        case True
        have ev: "put_evict32 s = put_evict s"
        proof (rule put_evict32_eq)
          fix l L assume l: "listMap s (minf s) = Some l" "lists s l = Some L"
          from shapeD1[OF sh l(1)] l(2) have "size L = int (length (B (minf s)))" by auto
          with bucket_length_le[OF i0, of "minf s"] cs show "int32 (size L - 1) = size L - 1"
            by (intro int32_id) auto
        next
          show "int32 (curSize s - 1) = curSize s - 1" using cs c0 by (intro int32_id) auto
        qed
        from evict_step[OF inv full_nonempty[OF inv nz True]] obtain s1 B1 where
          s1: "put_evict s = Some s1" "Inv0 s1 B1" "curSize s1 = curSize s - 1" by blast
        have pos: "0 < curSize s"
          using full_nonempty[OF inv nz True] en by (auto simp: entries_ok_def card_gt_0_iff)
        have "put_insert32 k v s1 = put_insert k v s1"
          by (rule ins[OF s1(2)]) (use s1(3) cs pos in simp_all)
        with nz None True ev s1(1) show ?thesis by (simp add: put32_def put_def)
      qed
    qed
  qed
qed

lemma step32_eq:
  assumes inv: "Inv T lt s B"
    and cs: "curSize s < 2147483647" and fr: "\<forall>k v f. entry s k = Some (v, f) \<longrightarrow> f < 2147483647"
  shows "step32 x s = step x s"
  using get32_eq[OF assms] put32_eq[OF assms] by (cases x) simp_all

text \<open>
  After \<open>n\<close> calls on a new cache no counter exceeds \<open>n\<close>: the cache holds at most \<open>n\<close>
  entries and no frequency is above \<open>n\<close>.
\<close>

lemma step_bounds:
  assumes inv: "Inv T lt s B" and st: "step x s = Some s'"
    and cs: "curSize s \<le> m" and fr: "\<forall>k v f. entry s k = Some (v, f) \<longrightarrow> f \<le> m" and m: "0 \<le> m"
  shows "curSize s' \<le> m + 1 \<and> (\<forall>k v f. entry s' k = Some (v, f) \<longrightarrow> f \<le> m + 1)"
proof -
  from step_entry[OF inv, of x] st obtain B' where
    inv': "Inv (Suc T) (lt(op_key x := Suc T)) s' B'"
    and oth: "\<forall>k'. k' \<noteq> op_key x \<longrightarrow> entry s' k' = entry s k' \<or> entry s' k' = None"
    and own: "entry s' (op_key x) =
       (case x of
          Get k \<Rightarrow> map_option (\<lambda>(v, f). (v, f + 1)) (entry s k)
        | Put k v \<Rightarrow> if maxSize s = 0 then entry s k
                     else Some (v, case entry s k of None \<Rightarrow> 1 | Some (v0, f) \<Rightarrow> f + 1))"
    by auto
  from inv have en: "entries_ok s B" by (simp add: Inv_def Inv0_def)
  from inv' have en': "entries_ok s' B'" by (simp add: Inv_def Inv0_def)
  have fin: "finite (dom (nodeMap s))" and c: "curSize s = int (card (dom (nodeMap s)))"
    using en by (simp_all add: entries_ok_def)
  have c': "curSize s' = int (card (dom (nodeMap s')))" using en' by (simp add: entries_ok_def)
  have "dom (entry s') \<subseteq> insert (op_key x) (dom (entry s))"
  proof
    fix k assume k: "k \<in> dom (entry s')"
    show "k \<in> insert (op_key x) (dom (entry s))"
    proof (cases "k = op_key x")
      case False
      from k obtain p where p: "entry s' k = Some p" by auto
      with oth False have "entry s k = Some p" by auto
      then show ?thesis by (simp add: domI)
    qed simp
  qed
  then have "dom (nodeMap s') \<subseteq> insert (op_key x) (dom (nodeMap s))"
    by (simp only: Inv_entry_dom[OF inv] Inv_entry_dom[OF inv'])
  then have "card (dom (nodeMap s')) \<le> card (insert (op_key x) (dom (nodeMap s)))"
    using fin by (intro card_mono) simp_all
  also have "\<dots> \<le> Suc (card (dom (nodeMap s)))" using fin by (simp add: card_insert_if)
  finally have 1: "curSize s' \<le> m + 1" using c c' cs by simp
  have 2: "f \<le> m + 1" if e: "entry s' k = Some (v, f)" for k v f
  proof (cases "k = op_key x")
    case False
    with oth e have "entry s k = Some (v, f)" by auto
    with fr have "f \<le> m" by blast
    then show ?thesis by simp
  next
    case True
    show ?thesis
    proof (cases "entry s k")
      case None
      with own e True m show ?thesis by (cases x) (auto split: if_splits)
    next
      case (Some p)
      obtain v0 f0 where p: "p = (v0, f0)" by (cases p)
      with Some fr have "f0 \<le> m" by blast
      with own e True Some p show ?thesis by (cases x) (auto split: if_splits)
    qed
  qed
  from 1 2 show ?thesis by blast
qed

lemma run_bounds:
  "run ops (new_LFUCache c) = Some s \<Longrightarrow>
     curSize s \<le> int (length ops) \<and> (\<forall>k v f. entry s k = Some (v, f) \<longrightarrow> f \<le> int (length ops))"
proof (induction ops arbitrary: s rule: rev_induct)
  case Nil
  then show ?case by (auto simp: new_LFUCache_def entry_def)
next
  case (snoc x xs)
  from snoc.prems obtain s0 where s0: "run xs (new_LFUCache c) = Some s0" "step x s0 = Some s"
    by (auto simp: run_snoc split: option.splits)
  from reach_Inv[OF s0(1)] obtain B where inv: "Inv (length xs) (last_touch xs) s0 B" by blast
  from snoc.IH[OF s0(1)] have b: "curSize s0 \<le> int (length xs)"
    "\<forall>k v f. entry s0 k = Some (v, f) \<longrightarrow> f \<le> int (length xs)" by simp_all
  have "int (length (xs @ [x])) = int (length xs) + 1" by simp
  with step_bounds[OF inv s0(2) b] show ?case by (simp only:) simp
qed

lemma run32_snoc: "run32 (xs @ [x]) s = (case run32 xs s of None \<Rightarrow> None | Some s' \<Rightarrow> step32 x s')"
  by (induction xs arbitrary: s) (auto split: option.splits)

text \<open>
  So the first 2147483647 calls on a new cache overflow no counter, and the 32-bit
  program does in them exactly what the program over the integers does.
\<close>

lemma run32_eq_from:
  assumes "run ops (new_LFUCache c) = Some s" and "length ops + length ops' \<le> 2147483647"
  shows "run32 ops' s = run ops' s \<and> stays32 k ops' s = stays k ops' s"
  using assms
proof (induction ops' arbitrary: ops s)
  case Nil
  then show ?case by simp
next
  case (Cons x xs)
  from reach_Inv[OF Cons.prems(1)] obtain B where inv: "Inv (length ops) (last_touch ops) s B" by blast
  from Cons.prems(2) have len: "int (length ops) < 2147483647" by simp
  from run_bounds[OF Cons.prems(1)] len have b: "curSize s < 2147483647"
    "\<forall>k v f. entry s k = Some (v, f) \<longrightarrow> f < 2147483647" by fastforce+
  from step32_eq[OF inv b] have st: "step32 x s = step x s" .
  show ?case
  proof (cases "step x s")
    case None
    with st show ?thesis by simp
  next
    case (Some s')
    then have r: "run (ops @ [x]) (new_LFUCache c) = Some s'" using Cons.prems(1) by (simp add: run_snoc)
    from Cons.prems(2) have "length (ops @ [x]) + length xs \<le> 2147483647" by simp
    from Cons.IH[OF r this] st Some show ?thesis by simp
  qed
qed

lemma run32_eq:
  assumes "length ops \<le> 2147483647"
  shows "run32 ops (new_LFUCache c) = run ops (new_LFUCache c)"
proof -
  have "run [] (new_LFUCache c) = Some (new_LFUCache c)" by simp
  from run32_eq_from[OF this, of ops] assms show ?thesis by simp
qed

lemma reach32:
  assumes r: "run32 ops (new_LFUCache c) = Some s" and len: "length ops < 2147483647"
  shows "run ops (new_LFUCache c) = Some s \<and> get32 k s = get k s \<and> put32 k v s = put k v s"
proof -
  from run32_eq[of ops c] len r have r': "run ops (new_LFUCache c) = Some s" by simp
  from reach_Inv[OF r'] obtain B where inv: "Inv (length ops) (last_touch ops) s B" by blast
  from len have "int (length ops) < 2147483647" by simp
  with run_bounds[OF r'] have b: "curSize s < 2147483647"
    "\<forall>k v f. entry s k = Some (v, f) \<longrightarrow> f < 2147483647" by fastforce+
  from r' get32_eq[OF inv b] put32_eq[OF inv b] show ?thesis by simp
qed

subsection \<open>The first overflow\<close>

text \<open>
  A \<open>get\<close> of the 32-bit program on a key of frequency \<open>f\<close> leaves it with frequency
  \<open>int32 (f + 1)\<close>, which is \<open>-2147483648\<close> when \<open>f\<close> is \<open>2147483647\<close>.
\<close>

lemma get32_wraps:
  assumes inv: "Inv T lt s B" and e: "entry s k = Some (v, f)"
    and cs: "curSize s < 2147483647" and f: "1 \<le> f" "f \<le> 2147483647"
  shows "\<exists>s'. get32 k s = Some (v, s') \<and> entry s' k = Some (v, int32 (f + 1))"
proof -
  from inv have i0: "Inv0 s B" by (simp add: Inv_def)
  then have sh: "shape (listMap s) (nodes s) (lists s) (fresh s) B" and en: "entries_ok s B"
    by (simp_all add: Inv0_def)
  from Inv_entry[OF inv e] obtain a where a: "nodeMap s k = Some a" "dat s a = Some (k, v, f)" by blast
  from entD2[OF en a(1)] a(2) have ain: "a \<in> set (B f)" by auto
  from a(2) obtain n where n: "nodes s a = Some n" "key n = k" "val n = v" and c: "f = count n"
    by (auto simp: dat_Some)
  have ne: "int32 (f + 1) \<noteq> f"
  proof (cases "f = 2147483647")
    case True
    then show ?thesis by (simp add: int32_def)
  next
    case False
    with f have "int32 (f + 1) = f + 1" by (intro int32_id) auto
    then show ?thesis by simp
  qed
  have small: "\<forall>f. int (length (B f)) < 2147483647"
  proof
    fix g show "int (length (B g)) < 2147483647"
      using bucket_length_le[OF i0, of g] cs by (rule le_less_trans)
  qed
  from updateFreqList32_shape[OF sh n(1) c ain refl ne small] obtain s' where
    s': "updateFreqList32 a s = Some s'" "nodeMap s' = nodeMap s"
      "map_option data (nodes s' a) = Some (key n, val n, int32 (f + 1))" by blast
  have g: "get32 k s = Some (v, s')" using a(1) n s'(1) by (simp add: get32_def)
  have "dat s' a = Some (k, v, int32 (f + 1))" using s'(3) n by (simp add: dat_def)
  from entry_dat[OF _ this, of k] a(1) s'(2) have "entry s' k = Some (v, int32 (f + 1))" by simp
  with g show ?thesis by blast
qed

lemma gets_count:
  assumes c: "c \<noteq> 0"
  shows "\<exists>s. run (Put k v # replicate n (Get k)) (new_LFUCache c) = Some s \<and>
           entry s k = Some (v, int n + 1) \<and> curSize s = 1"
proof (induction n)
  case 0
  have m: "maxSize (new_LFUCache c) \<noteq> 0" using c by (simp add: new_LFUCache_def)
  have k: "nodeMap (new_LFUCache c) k = None" by (simp add: new_LFUCache_def)
  have room: "curSize (new_LFUCache c) \<noteq> maxSize (new_LFUCache c)" using c by (simp add: new_LFUCache_def)
  from put_new_room[OF Inv_init k m room, of v] obtain s' where
    "put k v (new_LFUCache c) = Some s'" "curSize s' = curSize (new_LFUCache c) + 1"
    "entry s' = (entry (new_LFUCache c))(k \<mapsto> (v, 1))" by blast
  then show ?case by (auto simp: new_LFUCache_def)
next
  case (Suc n)
  let ?ops = "Put k v # replicate n (Get k)"
  from Suc obtain s where s: "run ?ops (new_LFUCache c) = Some s"
    "entry s k = Some (v, int n + 1)" "curSize s = 1" by blast
  from reach_Inv[OF s(1)] obtain B where inv: "Inv (length ?ops) (last_touch ?ops) s B" by blast
  from Inv_entry[OF inv s(2)] obtain a where a: "nodeMap s k = Some a" by blast
  from get_hit[OF inv a] s(2) obtain s' where
    g: "get k s = Some (v, s')" "curSize s' = curSize s" "entry s' = (entry s)(k \<mapsto> (v, int n + 1 + 1))"
    by auto
  have "Put k v # replicate (Suc n) (Get k) = ?ops @ [Get k]"
    by (simp add: replicate_append_same)
  then have "run (Put k v # replicate (Suc n) (Get k)) (new_LFUCache c) = Some s'"
    using s(1) g(1) by (simp only: run_snoc) simp
  with g s(3) show ?case by (intro exI[of _ s']) simp
qed

section \<open>The claims\<close>

text \<open>
  In the theorems below a cache state \<open>s\<close> is one that a client can reach:
  \<open>run ops (new_LFUCache c) = Some s\<close> for a capacity \<open>c\<close> and a call sequence \<open>ops\<close>.
  \<open>run_total\<close> says that every call sequence runs to such a state. By \<open>run32_eq\<close> and
  \<open>reach32\<close> the states that the 32-bit program reaches in its first 2147483647 calls are
  among them. The theorems of claims C7 and C8 are stated of the 32-bit program.
\<close>



text \<open>
  Claim C2. For a cache constructed with a capacity \<open>c \<ge> 0\<close>, after every sequence of
  \<open>get\<close> and \<open>put\<close> calls (so after each call of a sequence) \<open>0 \<le> curSize \<le> c\<close>, and a \<open>put\<close>
  in that state returns and removes at most one key from the key index.
\<close>

theorem size_within_capacity:
  assumes "0 \<le> c"
  shows "\<exists>s. run ops (new_LFUCache c) = Some s \<and> 0 \<le> curSize s \<and> curSize s \<le> c \<and>
           (\<forall>k v. \<exists>s'. put k v s = Some s' \<and> card (dom (nodeMap s) - dom (nodeMap s')) \<le> 1)"
proof -
  from run_Inv[of ops c] obtain s B where s: "run ops (new_LFUCache c) = Some s"
    and inv: "Inv (length ops) (last_touch ops) s B" and cap: "maxSize s = c" by blast
  have "\<exists>s'. put k v s = Some s' \<and> card (dom (nodeMap s) - dom (nodeMap s')) \<le> 1" for k v
  proof (cases "maxSize s = 0")
    case True
    then show ?thesis by (simp add: put_zero)
  next
    case False
    from put_stores[OF inv False, of k v] obtain s' e where
      p: "put k v s = Some s'" and sub: "dom (nodeMap s) - dom (nodeMap s') \<subseteq> {e}" by blast
    from sub have "card (dom (nodeMap s) - dom (nodeMap s')) \<le> card {e}"
      by (intro card_mono) simp_all
    with p show ?thesis by simp
  qed
  with s Inv_size(1,2)[OF inv] cap assms show ?thesis by auto
qed

theorem size_within_capacity_witness:
  "0 \<le> (2::int) \<and>
   (\<exists>s. run [Put 1 10, Put 2 20, Put 3 30] (new_LFUCache 2) = Some s \<and> 0 \<le> curSize s \<and> curSize s \<le> 2 \<and>
           (\<forall>k v. \<exists>s'. put k v s = Some s' \<and> card (dom (nodeMap s) - dom (nodeMap s')) \<le> 1))"
  using size_within_capacity[of 2 "[Put 1 10, Put 2 20, Put 3 30]"] by simp




text \<open>
  Claim C4. In every cache state, reachable or not, a \<open>get(k)\<close> that returns leaves \<open>curSize\<close>
  and the whole key index as they were; when \<open>k\<close> is absent from \<open>nodeMap\<close> it returns the miss
  value \<open>-1\<close> and the state is unchanged in every component. In a reachable state \<open>get\<close>
  always returns.
\<close>

theorem get_frame:
  "(\<forall>r s'. get k s = Some (r, s') \<longrightarrow> curSize s' = curSize s \<and> nodeMap s' = nodeMap s) \<and>
   (nodeMap s k = None \<longrightarrow> get k s = Some (- 1, s)) \<and>
   (run ops (new_LFUCache c) = Some s \<longrightarrow> get k s \<noteq> None)"
proof (intro conjI allI impI)
  fix r s' assume "get k s = Some (r, s')"
  from get_frame_any[OF this] show "curSize s' = curSize s" "nodeMap s' = nodeMap s" by simp_all
next
  assume "nodeMap s k = None" then show "get k s = Some (- 1, s)" by (rule get_miss)
next
  assume "run ops (new_LFUCache c) = Some s"
  from reach_Inv[OF this] obtain B where inv: "Inv (length ops) (last_touch ops) s B" by blast
  show "get k s \<noteq> None"
  proof (cases "nodeMap s k")
    case None then show ?thesis by (simp add: get_miss)
  next
    case (Some a)
    from get_hit[OF inv Some] show ?thesis by auto
  qed
qed

theorem get_frame_witness:
  "\<exists>s r s'. run [Put 1 10] (new_LFUCache 2) = Some s \<and>
      get 1 s = Some (r, s') \<and> curSize s' = curSize s \<and> nodeMap s' = nodeMap s \<and>
      nodeMap s 2 = None \<and> get 2 s = Some (- 1, s)"
proof -
  obtain s where s: "run [Put 1 10] (new_LFUCache 2) = Some s" using run_total by blast
  have "case run [Put 1 10] (new_LFUCache 2) of None \<Rightarrow> False | Some s \<Rightarrow> nodeMap s 2 = None"
    by code_simp
  with s have h: "nodeMap s 2 = None" by simp
  from get_frame[of 1 s "[Put 1 10]" 2] s obtain r s' where g: "get 1 s = Some (r, s')" by auto
  from get_frame[of 1 s "[Put 1 10]" 2] g have "curSize s' = curSize s \<and> nodeMap s' = nodeMap s" by blast
  moreover from get_frame[of 2 s "[Put 1 10]" 2] h have "get 2 s = Some (- 1, s)" by blast
  ultimately show ?thesis using s g h by blast
qed

text \<open>
  Claim C5 is stated for every non-negative capacity. With capacity 0 it fails: \<open>put\<close>
  returns at its first line, and the \<open>get\<close> that follows \<open>put(1, 5)\<close> misses.
\<close>

theorem zero_capacity_put_then_get_misses:
  "map_option fst (Option.bind (put 1 5 (new_LFUCache 0)) (get 1)) = Some (- 1)"
  by code_simp

text \<open>
  Claim C5, amended to capacities greater than 0. Right after \<open>put(k, v)\<close>, \<open>get(k)\<close> returns
  \<open>v\<close>; after any further calls among which there is no \<open>put\<close> on \<open>k\<close>, if \<open>k\<close> is still in
  the key index (it has not been evicted) then \<open>get(k)\<close> returns \<open>v\<close>. When \<open>k\<close> was present
  before the \<open>put\<close>, the \<open>put\<close> leaves \<open>curSize\<close> and the key index unchanged: the value is
  written into the node that \<open>nodeMap\<close> already holds for \<open>k\<close>.
\<close>

theorem put_then_get:
  assumes "0 < c" and "run ops (new_LFUCache c) = Some s" and "\<not> list_ex (puts_to k) ops'"
  shows "\<exists>s1 s2. put k v s = Some s1 \<and> map_option fst (get k s1) = Some v \<and>
           (nodeMap s k \<noteq> None \<longrightarrow> curSize s1 = curSize s \<and> nodeMap s1 = nodeMap s) \<and>
           run ops' s1 = Some s2 \<and>
           (nodeMap s2 k \<noteq> None \<longrightarrow> map_option fst (get k s2) = Some v)"
proof -
  from reach_Inv[OF assms(2)] obtain B where inv: "Inv (length ops) (last_touch ops) s B"
    and cap: "maxSize s = c" by blast
  from cap assms(1) have nz: "maxSize s \<noteq> 0" by simp
  from put_stores[OF inv nz, of k v] obtain s1 B1 f where
    p: "put k v s = Some s1" and inv1: "Inv (Suc (length ops)) ((last_touch ops)(k := Suc (length ops))) s1 B1"
    and e1: "entry s1 k = Some (v, f)"
    and same: "nodeMap s k \<noteq> None \<longrightarrow> curSize s1 = curSize s \<and> nodeMap s1 = nodeMap s"
    by blast
  from get_returns_entry[OF inv1 e1] have g1: "map_option fst (get k s1) = Some v" by auto
  have np: "\<forall>x\<in>set ops'. \<not> puts_to k x" using assms(3) by (simp add: list_ex_iff)
  from run_keeps_value[OF inv1 np, of v] e1 obtain s2 T2 lt2 B2 where
    r: "run ops' s1 = Some s2" and inv2: "Inv T2 lt2 s2 B2"
    and e2: "entry s2 k = None \<or> (\<exists>f. entry s2 k = Some (v, f))" by blast
  have "map_option fst (get k s2) = Some v" if "nodeMap s2 k \<noteq> None"
  proof -
    from that Inv_entry_iff[OF inv2, of k] e2 obtain f2 where "entry s2 k = Some (v, f2)" by auto
    from get_returns_entry[OF inv2 this] show ?thesis by auto
  qed
  with p g1 same r show ?thesis by blast
qed

theorem put_then_get_witness:
  "0 < (2::int) \<and> \<not> list_ex (puts_to 1) [Get 2, Put 2 20, Get 1] \<and>
   (\<exists>s s1 s2. run [Put 1 10] (new_LFUCache 2) = Some s \<and> nodeMap s 1 \<noteq> None \<and>
      put 1 11 s = Some s1 \<and> map_option fst (get 1 s1) = Some 11 \<and>
      curSize s1 = curSize s \<and> nodeMap s1 = nodeMap s \<and>
      run [Get 2, Put 2 20, Get 1] s1 = Some s2 \<and> nodeMap s2 1 \<noteq> None \<and>
      map_option fst (get 1 s2) = Some 11)"
proof -
  obtain s where s: "run [Put 1 10] (new_LFUCache 2) = Some s" using run_total by blast
  have c: "0 < (2::int)" by simp
  have n: "\<not> list_ex (puts_to 1) [Get 2, Put 2 20, Get 1]" by simp
  from put_then_get[OF c s n, of 11] obtain s1 s2 where
    a: "put 1 11 s = Some s1" "map_option fst (get 1 s1) = Some 11"
      "nodeMap s 1 \<noteq> None \<longrightarrow> curSize s1 = curSize s \<and> nodeMap s1 = nodeMap s"
      "run [Get 2, Put 2 20, Get 1] s1 = Some s2"
      "nodeMap s2 1 \<noteq> None \<longrightarrow> map_option fst (get 1 s2) = Some 11" by blast
  have "case run [Put 1 10] (new_LFUCache 2) of None \<Rightarrow> False | Some s \<Rightarrow> nodeMap s 1 \<noteq> None"
    by code_simp
  with s have h1: "nodeMap s 1 \<noteq> None" by simp
  have r1: "run [Put 1 11] s = Some s1" using a(1) by simp
  have all: "run ([Put 1 10] @ [Put 1 11] @ [Get 2, Put 2 20, Get 1]) (new_LFUCache 2) = Some s2"
    by (simp only: run_append s r1 a(4) option.case)
  have "case run ([Put 1 10] @ [Put 1 11] @ [Get 2, Put 2 20, Get 1]) (new_LFUCache 2) of
          None \<Rightarrow> False | Some s \<Rightarrow> nodeMap s 1 \<noteq> None"
    by code_simp
  with all have h2: "nodeMap s2 1 \<noteq> None" by simp
  show ?thesis
    by (rule conjI, simp, rule conjI, simp, rule exI[of _ s], rule exI[of _ s1], rule exI[of _ s2])
       (use s a h1 h2 in blast)
qed

text \<open>
  Claim C6. With capacity 0, \<open>put\<close> returns the state it was given, whatever that state
  is: the test is the first statement of the function. Every call sequence on a cache
  constructed with capacity 0 leaves it as constructed, with an empty key index, and
  every \<open>get\<close> on it returns the miss value \<open>-1\<close>.
\<close>

theorem zero_capacity_noop:
  "put k v (s\<lparr>maxSize := 0\<rparr>) = Some (s\<lparr>maxSize := 0\<rparr>) \<and>
   run ops (new_LFUCache 0) = Some (new_LFUCache 0) \<and>
   get k (new_LFUCache 0) = Some (- 1, new_LFUCache 0) \<and>
   nodeMap (new_LFUCache 0) = Map.empty \<and> curSize (new_LFUCache 0) = 0"
proof -
  have g: "get k' (new_LFUCache 0) = Some (- 1, new_LFUCache 0)" for k'
    by (simp add: get_def new_LFUCache_def)
  have p: "put k' v' (new_LFUCache 0) = Some (new_LFUCache 0)" for k' v'
    by (simp add: put_def new_LFUCache_def)
  have st: "step x (new_LFUCache 0) = Some (new_LFUCache 0)" for x
    by (cases x) (simp_all add: g p)
  have "run ops (new_LFUCache 0) = Some (new_LFUCache 0)"
    by (induction ops) (simp_all add: st)
  then show ?thesis using g by (simp add: put_def) (simp add: new_LFUCache_def)
qed

text \<open>
  Claim C7 says that the constructor rejects a negative capacity. The constructor has no
  test: \<open>new_LFUCache (-1)\<close> is a cache with \<open>maxSize = -1\<close>, and it is usable, a \<open>put\<close>
  followed by a \<open>get\<close> returns the value.
\<close>

theorem negative_capacity_cache_is_usable:
  "maxSize (new_LFUCache (- 1)) = - 1 \<and>
   map_option fst (Option.bind (put 1 5 (new_LFUCache (- 1))) (get 1)) = Some 5"
  by code_simp

text \<open>
  Claim C7, amended. For every integer \<open>c < 0\<close>, constructing an \<open>LFUCache\<close> with capacity
  \<open>c\<close> succeeds: the constructor has no test and yields a cache instance with \<open>maxSize = c\<close>,
  \<open>curSize = 0\<close>, \<open>minf = 0\<close> and an empty key index and bucket index. The instance is usable:
  \<open>put(k, v)\<close> on it stores \<open>v\<close> under \<open>k\<close> and the \<open>get(k)\<close> that follows returns \<open>v\<close>, in the
  32-bit program as in the program over the integers.
\<close>

theorem negative_capacity_is_accepted:
  assumes "c < 0"
  shows "maxSize (new_LFUCache c) = c \<and> curSize (new_LFUCache c) = 0 \<and> minf (new_LFUCache c) = 0 \<and>
         nodeMap (new_LFUCache c) = Map.empty \<and> listMap (new_LFUCache c) = Map.empty \<and>
         (\<exists>s1 s2. put32 k v (new_LFUCache c) = Some s1 \<and> put k v (new_LFUCache c) = Some s1 \<and>
            entry s1 k = Some (v, 1) \<and>
            get32 k s1 = Some (v, s2) \<and> get k s1 = Some (v, s2))"
proof -
  have nz: "c \<noteq> 0" using assms by simp
  from gets_count[OF nz, of k v 0] obtain s1 where
    s1: "run [Put k v] (new_LFUCache c) = Some s1" "entry s1 k = Some (v, 1)" by auto
  have r0: "run32 [] (new_LFUCache c) = Some (new_LFUCache c)" by simp
  have p: "put k v (new_LFUCache c) = Some s1" using s1(1) by (simp split: option.splits)
  from reach32[OF r0, of k v] p have p32: "put32 k v (new_LFUCache c) = Some s1" by simp
  then have r1: "run32 [Put k v] (new_LFUCache c) = Some s1" by simp
  from reach_Inv[OF s1(1)] obtain B where inv: "Inv (length [Put k v]) (last_touch [Put k v]) s1 B"
    by blast
  from get_returns_entry[OF inv s1(2)] obtain s2 where g: "get k s1 = Some (v, s2)" by blast
  from reach32[OF r1, of k v] g have g32: "get32 k s1 = Some (v, s2)" by simp
  from p p32 s1(2) g g32 show ?thesis by (simp add: new_LFUCache_def)
qed

theorem negative_capacity_is_accepted_witness:
  "(- 1::int) < 0 \<and> maxSize (new_LFUCache (- 1)) = - 1 \<and> curSize (new_LFUCache (- 1)) = 0 \<and>
   minf (new_LFUCache (- 1)) = 0 \<and>
   nodeMap (new_LFUCache (- 1)) = Map.empty \<and> listMap (new_LFUCache (- 1)) = Map.empty \<and>
   (\<exists>s1 s2. put32 1 5 (new_LFUCache (- 1)) = Some s1 \<and> put 1 5 (new_LFUCache (- 1)) = Some s1 \<and>
      entry s1 1 = Some (5, 1) \<and>
      get32 1 s1 = Some (5, s2) \<and> get 1 s1 = Some (5, s2))"
  using negative_capacity_is_accepted[of "- 1" 1 5] by simp

text \<open>
  Claim C8 says that a frequency goes up by exactly 1 on every \<open>get\<close> or \<open>put\<close> of its key
  and never decreases. \<open>count\<close> is a 32-bit \<open>int\<close>: after \<open>put(1, 0)\<close> and 2147483646 calls
  of \<open>get(1)\<close> the frequency of key 1 is 2147483647, the largest \<open>int\<close>, and the next
  \<open>get(1)\<close> leaves it at \<open>-2147483648\<close>.
\<close>

theorem frequency_wraps_at_int_max:
  "Option.bind (run32 (Put 1 0 # replicate 2147483646 (Get 1)) (new_LFUCache 1)) (entry_of 1)
     = Some (0, 2147483647) \<and>
   Option.bind (run32 (Put 1 0 # replicate 2147483647 (Get 1)) (new_LFUCache 1)) (entry_of 1)
     = Some (0, - 2147483648)"
proof -
  let ?ops = "Put 1 0 # replicate 2147483646 (Get 1)"
  have one: "(1::int) \<noteq> 0" by simp
  from gets_count[OF one, of 1 0 2147483646] obtain s where
    s: "run ?ops (new_LFUCache 1) = Some s" "entry s 1 = Some (0, 2147483647)" "curSize s = 1"
    by auto
  have "length ?ops \<le> 2147483647" by simp
  from run32_eq[OF this, of 1] s(1) have r: "run32 ?ops (new_LFUCache 1) = Some s" by simp
  from reach_Inv[OF s(1)] obtain B where inv: "Inv (length ?ops) (last_touch ?ops) s B" by blast
  have cs: "curSize s < 2147483647" using s(3) by simp
  from get32_wraps[OF inv s(2) cs] obtain s' where
    g: "get32 1 s = Some (0, s')" "entry s' 1 = Some (0, int32 (2147483647 + 1))" by auto
  have e': "entry s' 1 = Some (0, - 2147483648)" using g(2) by (simp add: int32_def)
  have "(2147483647::nat) = Suc 2147483646" by simp
  then have "replicate 2147483647 (Get 1) = replicate 2147483646 (Get 1) @ [Get 1]"
    by (simp only: replicate_Suc replicate_append_same)
  then have "Put 1 0 # replicate 2147483647 (Get 1) = ?ops @ [Get 1]" by simp
  then have "run32 (Put 1 0 # replicate 2147483647 (Get 1)) (new_LFUCache 1) = Some s'"
    using r g(1) by (simp only: run32_snoc) simp
  with r s(2) e' show ?thesis by (simp add: entry_of_def)
qed

text \<open>
  Claim C8, amended to the calls before the first overflow. After fewer than 2147483647
  calls on a new cache: the \<open>put\<close> of an absent key (capacity not 0) creates its entry with
  frequency 1; every frequency is at least 1 and below 2147483647, and a \<open>get\<close> or a \<open>put\<close>
  of a present key raises its frequency by exactly 1. Along further calls that stay
  within the first 2147483647 calls on the cache and during which the key stays in the
  cache (it is not evicted), its frequency at the end is not below its frequency at the
  start. This is stated of the 32-bit program.
\<close>

theorem frequency_counts_accesses_until_overflow:
  assumes "run32 ops (new_LFUCache c) = Some s" and "length ops < 2147483647"
  shows "(entry s k = None \<longrightarrow> c \<noteq> 0 \<longrightarrow> (\<exists>s'. put32 k v s = Some s' \<and> entry s' k = Some (v, 1))) \<and>
         (\<forall>v0 f. entry s k = Some (v0, f) \<longrightarrow>
            1 \<le> f \<and> f < 2147483647 \<and>
            (\<exists>s'. get32 k s = Some (v0, s') \<and> entry s' k = Some (v0, f + 1)) \<and>
            (\<exists>s'. put32 k v s = Some s' \<and> entry s' k = Some (v, f + 1))) \<and>
         (\<forall>ops' s2 v1 f1 v2 f2. length ops + length ops' \<le> 2147483647 \<longrightarrow>
            stays32 k ops' s \<longrightarrow> run32 ops' s = Some s2 \<longrightarrow>
            entry s k = Some (v1, f1) \<longrightarrow> entry s2 k = Some (v2, f2) \<longrightarrow> f1 \<le> f2)"
proof (intro conjI allI impI)
  from reach32[OF assms] have r: "run ops (new_LFUCache c) = Some s"
    and g32: "get32 k s = get k s" and p32: "put32 k v s = put k v s" by simp_all
  from reach_Inv[OF r] obtain B where inv: "Inv (length ops) (last_touch ops) s B"
    and cap: "maxSize s = c" by blast
  from inv have en: "entries_ok s B" by (simp add: Inv_def Inv0_def)
  {
    assume "entry s k = None" "c \<noteq> 0"
    with put_stores[OF inv, of k v] cap show "\<exists>s'. put32 k v s = Some s' \<and> entry s' k = Some (v, 1)"
      unfolding p32 by auto
  }
  {
    fix v0 f assume e: "entry s k = Some (v0, f)"
    from Inv_entry[OF inv e] obtain a where a: "nodeMap s k = Some a" "dat s a = Some (k, v0, f)" by blast
    from entD2[OF en a(1)] a(2) have "a \<in> set (B f)" by auto
    then show "1 \<le> f" using entD4[OF en, of f] by (cases "B f") auto
    from run_bounds[OF r] e have "f \<le> int (length ops)" by blast
    with assms(2) show "f < 2147483647" by simp
    from get_returns_entry[OF inv e] show "\<exists>s'. get32 k s = Some (v0, s') \<and> entry s' k = Some (v0, f + 1)"
      unfolding g32 by blast
    have nz: "maxSize s \<noteq> 0" using zero_cap_empty[OF inv] a(1) by auto
    from put_stores[OF inv nz, of k v] e show "\<exists>s'. put32 k v s = Some s' \<and> entry s' k = Some (v, f + 1)"
      unfolding p32 by auto
  }
  {
    fix ops' s2 v1 f1 v2 f2
    assume len: "length ops + length ops' \<le> 2147483647"
      and st: "stays32 k ops' s" and r2: "run32 ops' s = Some s2"
      and e: "entry s k = Some (v1, f1)" "entry s2 k = Some (v2, f2)"
    from run32_eq_from[OF r len, of k] st r2 have "stays k ops' s" "run ops' s = Some s2" by simp_all
    from run_freq_mono[OF inv this e] show "f1 \<le> f2" .
  }
qed

theorem frequency_counts_accesses_until_overflow_witness:
  "\<exists>s. run32 [Put 1 10] (new_LFUCache 2) = Some s \<and> length [Put 1 10] < 2147483647 \<and>
     entry s 2 = None \<and> (2::int) \<noteq> 0 \<and> (\<exists>s'. put32 2 20 s = Some s' \<and> entry s' 2 = Some (20, 1)) \<and>
     entry s 1 = Some (10, 1) \<and> (\<exists>s'. get32 1 s = Some (10, s') \<and> entry s' 1 = Some (10, 2)) \<and>
     (\<exists>s'. put32 1 11 s = Some s' \<and> entry s' 1 = Some (11, 2)) \<and>
     (\<exists>s2. length [Put 1 10] + length [Get 2, Get 1, Put 2 20] \<le> 2147483647 \<and>
        stays32 1 [Get 2, Get 1, Put 2 20] s \<and> run32 [Get 2, Get 1, Put 2 20] s = Some s2 \<and>
        entry s2 1 = Some (10, 2) \<and> (1::int) \<le> 2)"
proof -
  have len: "length [Put 1 10] < 2147483647"
    "length [Put 1 10] + length [Get 2, Get 1, Put 2 20] \<le> 2147483647" by simp_all
  obtain s where s: "run32 [Put 1 10] (new_LFUCache 2) = Some s"
    using run32_eq[of "[Put 1 10]" 2] run_total[of "[Put 1 10]" 2] by auto
  have "case run32 [Put 1 10] (new_LFUCache 2) of None \<Rightarrow> False
        | Some s \<Rightarrow> entry s 2 = None \<and> entry s 1 = Some (10, 1) \<and> stays32 1 [Get 2, Get 1, Put 2 20] s \<and>
            map_option (entry_of 1) (run32 [Get 2, Get 1, Put 2 20] s) = Some (Some (10, 2))"
    by code_simp
  with s have h: "entry s 2 = None" "entry s 1 = Some (10, 1)" "stays32 1 [Get 2, Get 1, Put 2 20] s"
    "map_option (entry_of 1) (run32 [Get 2, Get 1, Put 2 20] s) = Some (Some (10, 2))" by simp_all
  from h(4) obtain s2 where s2: "run32 [Get 2, Get 1, Put 2 20] s = Some s2" "entry s2 1 = Some (10, 2)"
    by (auto simp: entry_of_def)
  note t1 = frequency_counts_accesses_until_overflow[OF s len(1), of 2 20]
  note t2 = frequency_counts_accesses_until_overflow[OF s len(1), of 1 11]
  from t1 h(1) have a: "\<exists>s'. put32 2 20 s = Some s' \<and> entry s' 2 = Some (20, 1)" by simp
  from t2 h(2) have b: "\<exists>s'. get32 1 s = Some (10, s') \<and> entry s' 1 = Some (10, 2)"
    "\<exists>s'. put32 1 11 s = Some s' \<and> entry s' 1 = Some (11, 2)" by auto
  from t2 len(2) h(3) s2 h(2) have "(1::int) \<le> 2" by blast
  with len(2) h(3) s2 have d: "\<exists>s2. length [Put 1 10] + length [Get 2, Get 1, Put 2 20] \<le> 2147483647 \<and>
        stays32 1 [Get 2, Get 1, Put 2 20] s \<and> run32 [Get 2, Get 1, Put 2 20] s = Some s2 \<and>
        entry s2 1 = Some (10, 2) \<and> (1::int) \<le> 2" by blast
  show ?thesis by (rule exI[of _ s]) (use s len(1) h a b d in simp)
qed

text \<open>
  Claim C9 says that no stored value collides with the miss result. \<open>get\<close> returns an
  \<open>int\<close> and reports a miss as \<open>-1\<close>, which is a value that can be stored: after
  \<open>put(1, -1)\<close>, \<open>get(1)\<close> on the present key and \<open>get(2)\<close> on the absent key both return \<open>-1\<close>.
\<close>

theorem stored_minus_one_looks_like_miss:
  "map_option fst (Option.bind (run [Put 1 (- 1)] (new_LFUCache 2)) (get 1)) = Some (- 1) \<and>
   map_option fst (Option.bind (run [Put 1 (- 1)] (new_LFUCache 2)) (get 2)) = Some (- 1) \<and>
   Option.bind (run [Put 1 (- 1)] (new_LFUCache 2)) (entry_of 1) = Some (- 1, 1) \<and>
   Option.bind (run [Put 1 (- 1)] (new_LFUCache 2)) (entry_of 2) = None"
  by code_simp

text \<open>
  Claim C9, amended. In a reachable state \<open>get\<close> returns the stored value for a present
  key and \<open>-1\<close> for an absent key, so the result for a key present with value \<open>v\<close> differs
  from the result of a miss exactly when \<open>v\<close> is not \<open>-1\<close>.
\<close>

theorem miss_is_minus_one:
  assumes "run ops (new_LFUCache c) = Some s" and "entry s k = Some (v, f)" and "entry s k' = None"
  shows "map_option fst (get k s) = Some v \<and> get k' s = Some (- 1, s) \<and>
         (map_option fst (get k s) \<noteq> map_option fst (get k' s)) = (v \<noteq> - 1)"
proof -
  from reach_Inv[OF assms(1)] obtain B where inv: "Inv (length ops) (last_touch ops) s B" by blast
  from get_returns_entry[OF inv assms(2)] have 1: "map_option fst (get k s) = Some v" by auto
  from assms(3) Inv_entry_iff[OF inv, of k'] have "nodeMap s k' = None" by simp
  then have 2: "get k' s = Some (- 1, s)" by (rule get_miss)
  from 1 2 show ?thesis by auto
qed

theorem miss_is_minus_one_witness:
  "\<exists>s. run [Put 1 10] (new_LFUCache 2) = Some s \<and> entry s 1 = Some (10, 1) \<and> entry s 2 = None \<and>
     map_option fst (get 1 s) = Some 10 \<and> get 2 s = Some (- 1, s) \<and>
     (map_option fst (get 1 s) \<noteq> map_option fst (get 2 s)) = ((10::int) \<noteq> - 1)"
proof -
  obtain s where s: "run [Put 1 10] (new_LFUCache 2) = Some s" using run_total by blast
  have "case run [Put 1 10] (new_LFUCache 2) of None \<Rightarrow> False
        | Some s \<Rightarrow> entry s 2 = None \<and> entry s 1 = Some (10, 1)"
    by code_simp
  with s have h: "entry s 1 = Some (10, 1)" "entry s 2 = None" by simp_all
  from miss_is_minus_one[OF s h] s h show ?thesis by blast
qed

text \<open>
  Claim C10. In a state reachable in a cache of capacity greater than 0, when \<open>put\<close> takes
  its eviction branch (key absent, \<open>curSize == maxSize\<close>): \<open>listMap\<close> has a list at \<open>minf\<close>, so
  the lookup finds it and adds nothing to the map; its size is at least 1; the node
  before its tail sentinel is the node of an entry of the key index and is not a
  sentinel of any list; and the eviction block runs.
\<close>

theorem eviction_finds_real_entry:
  assumes "0 < c" and "run ops (new_LFUCache c) = Some s"
    and "nodeMap s k = None" and "curSize s = maxSize s"
  shows "\<exists>l L t ea d.
      listMap s (minf s) = Some l \<and> lists s l = Some L \<and> 1 \<le> size L \<and>
      nodes s (tail L) = Some t \<and> prev t = Some ea \<and>
      nodes s ea = Some d \<and> nodeMap s (key d) = Some ea \<and>
      (\<forall>f l' L'. listMap s f = Some l' \<longrightarrow> lists s l' = Some L' \<longrightarrow> ea \<noteq> head L' \<and> ea \<noteq> tail L') \<and>
      (\<exists>s1. put_evict s = Some s1 \<and> listMap s1 = listMap s)"
proof -
  from reach_Inv[OF assms(2)] obtain B where inv: "Inv (length ops) (last_touch ops) s B"
    and cap: "maxSize s = c" by blast
  from cap assms(1) have nz: "maxSize s \<noteq> 0" by simp
  have ne: "dom (nodeMap s) \<noteq> {}" using full_nonempty[OF inv nz assms(4)] .
  from evict_target[OF inv ne] obtain e ea v0 l L t where
    e: "nodeMap s e = Some ea" and d: "dat s ea = Some (e, v0, minf s)"
    and l: "listMap s (minf s) = Some l" "lists s l = Some L" "1 \<le> size L"
    and t: "nodes s (tail L) = Some t" "prev t = Some ea"
    and ns: "\<forall>f l' L'. listMap s f = Some l' \<longrightarrow> lists s l' = Some L' \<longrightarrow> ea \<noteq> head L' \<and> ea \<noteq> tail L'"
    by blast
  from d obtain dn where dn: "nodes s ea = Some dn" "key dn = e" by (auto simp: dat_Some)
  from evict_step[OF inv ne] obtain s1 where ev: "put_evict s = Some s1" by blast
  from put_evict_listMap[OF ev] ev have "\<exists>s1. put_evict s = Some s1 \<and> listMap s1 = listMap s" by blast
  with l t dn e ns show ?thesis by (intro exI[of _ l] exI[of _ L] exI[of _ t] exI[of _ ea] exI[of _ dn]) simp
qed

theorem eviction_finds_real_entry_witness:
  "0 < (1::int) \<and>
   (\<exists>s. run [Put 7 70] (new_LFUCache 1) = Some s \<and> nodeMap s 8 = None \<and> curSize s = maxSize s \<and>
      (\<exists>l L t ea d.
        listMap s (minf s) = Some l \<and> lists s l = Some L \<and> 1 \<le> size L \<and>
        nodes s (tail L) = Some t \<and> prev t = Some ea \<and>
        nodes s ea = Some d \<and> nodeMap s (key d) = Some ea \<and>
        (\<forall>f l' L'. listMap s f = Some l' \<longrightarrow> lists s l' = Some L' \<longrightarrow> ea \<noteq> head L' \<and> ea \<noteq> tail L') \<and>
        (\<exists>s1. put_evict s = Some s1 \<and> listMap s1 = listMap s)))"
proof -
  obtain s where s: "run [Put 7 70] (new_LFUCache 1) = Some s" using run_total by blast
  have "case run [Put 7 70] (new_LFUCache 1) of None \<Rightarrow> False
        | Some s \<Rightarrow> nodeMap s 8 = None \<and> curSize s = maxSize s"
    by code_simp
  with s have h: "nodeMap s 8 = None" "curSize s = maxSize s" by simp_all
  have c: "0 < (1::int)" by simp
  from eviction_finds_real_entry[OF c s h] s h show ?thesis by simp
qed

end
